theory Spec2Isabelle
  imports Main "HOL-Library.Word" "HOL-Library.AList"
begin

unbundle bit_operations_syntax

section \<open>Data model\<close>

text \<open>
  The multiplexing core of \<^verbatim>\<open>node_http2_core.cc\<close> and \<^verbatim>\<open>node_http2_core-inl.h\<close>.
  A \<^verbatim>\<open>uv_buf_t\<close> is the list of its bytes (\<^verbatim>\<open>len\<close> is the length of the list), a
  stream id is an \<^verbatim>\<open>int32_t\<close>, and a stream object lives at an address of an explicit
  store, since the registry, the pool and the callers all hold pointers to the same object.
  The nodes of the inbound data queue and of the header list come from pools that hand
  them out again as they were released, so these two lists are kept as the source has
  them: nodes in a store, each with its \<^verbatim>\<open>next\<close> pointer, and a head and a tail
  pointer in the stream. The nodes of the write queue are allocated anew for every
  request, and the write queue is a list: adding at the tail is \<open>@\<close>, unlinking the
  head is the tail of the list, and \<^verbatim>\<open>queue_head_ == nullptr\<close> is the empty list.
\<close>

type_synonym byte = "8 word"
type_synonym uv_buf_t = "byte list"
type_synonym int32_t = "32 word"
type_synonym ssize_t = "64 word"
type_synonym addr = nat
type_synonym nghttp2_rcbuf = string
type_synonym nghttp2_nv = "string \<times> string"

text \<open>
  A node of an intrusive list: what it holds and its \<^verbatim>\<open>next\<close> pointer (\<open>None\<close> is
  \<^verbatim>\<open>nullptr\<close>). A \<^verbatim>\<open>nghttp2_data_chunk_t\<close> holds \<^verbatim>\<open>buf\<close>, a
  \<^verbatim>\<open>nghttp2_header_list\<close> holds \<^verbatim>\<open>name\<close> and \<^verbatim>\<open>value\<close>. The nodes of one type
  live in a store, a finite table from addresses to nodes.
\<close>

record 'a list_node =
  item :: 'a
  next_node :: "addr option"

type_synonym nghttp2_data_chunk_t = "uv_buf_t list_node"
type_synonym nghttp2_header_list = "(nghttp2_rcbuf \<times> nghttp2_rcbuf) list_node"
type_synonym 'a node_store = "(addr \<times> 'a list_node) list"

datatype error =
    CheckFailed     \<comment> \<open>\<^verbatim>\<open>CHECK_NE\<close> aborts the process\<close>
  | AssertFailed    \<comment> \<open>\<^verbatim>\<open>assert\<close> aborts the process\<close>
  | NullDeref       \<comment> \<open>a member is read through a null pointer\<close>
  | NullCallback    \<comment> \<open>a null function pointer is called\<close>
  | Dangling        \<comment> \<open>a method is called on an object that has been deallocated\<close>
  | OutOfBounds     \<comment> \<open>\<^verbatim>\<open>memcpy\<close> reads outside the source buffer\<close>

datatype nghttp2_frame_type =
    NGHTTP2_DATA | NGHTTP2_HEADERS | NGHTTP2_PRIORITY | NGHTTP2_RST_STREAM
  | NGHTTP2_SETTINGS | NGHTTP2_PUSH_PROMISE | NGHTTP2_PING | NGHTTP2_GOAWAY
  | NGHTTP2_WINDOW_UPDATE | NGHTTP2_CONTINUATION

datatype nghttp2_headers_category =
    NGHTTP2_HCAT_REQUEST | NGHTTP2_HCAT_RESPONSE | NGHTTP2_HCAT_PUSH_RESPONSE
  | NGHTTP2_HCAT_HEADERS

text \<open>
  The fields of \<^verbatim>\<open>nghttp2_frame\<close> that the handlers read: the frame header, the promised
  stream id of a PUSH_PROMISE, the category of a header block and the priority
  specification.
\<close>

record nghttp2_frame =
  hd_type :: nghttp2_frame_type
  hd_stream_id :: int32_t
  hd_flags :: byte
  hd_length :: nat
  promised_stream_id :: int32_t
  headers_cat :: nghttp2_headers_category
  pri_spec_stream_id :: int32_t
  pri_spec_weight :: int32_t
  pri_spec_exclusive :: byte

text \<open>
  The bits of the member \<^verbatim>\<open>flags_\<close>. Their values are declared in
  \<^verbatim>\<open>node_http2_core.h\<close>; the model keeps the set of bits that are on, so
  \<^verbatim>\<open>flags_ |= F\<close> is \<open>insert F\<close>, \<^verbatim>\<open>flags_ &= ~F\<close> removes \<open>F\<close> and
  \<^verbatim>\<open>NGHTTP2_STREAM_FLAG_NONE\<close> is the empty set. The two files name the bits for
  reading started, reading paused and destroying; the other three are the bits behind
  the accessors \<^verbatim>\<open>IsWritable\<close> and \<^verbatim>\<open>IsDestroyed\<close> of the header.
\<close>

datatype nghttp2_stream_flags =
    NGHTTP2_STREAM_FLAG_SHUT
  | NGHTTP2_STREAM_READ_START
  | NGHTTP2_STREAM_READ_PAUSED
  | NGHTTP2_STREAM_CLOSED
  | NGHTTP2_STREAM_DESTROYED
  | NGHTTP2_STREAM_DESTROYING

datatype nghttp2_data_flag = NGHTTP2_DATA_FLAG_EOF | NGHTTP2_DATA_FLAG_NO_END_STREAM

text \<open>
  One node of the outbound write queue: the completion callback (\<open>None\<close> is
  \<^verbatim>\<open>nullptr\<close>), the request it completes and the caller's buffers (\<^verbatim>\<open>nbufs\<close> is the
  length of \<open>bufs\<close>).
\<close>

record nghttp2_stream_write_queue =
  cb :: "nat option"
  req :: nat
  bufs :: "uv_buf_t list"

text \<open>
  The members of \<^verbatim>\<open>Nghttp2Stream\<close>. A name cannot end in an underscore here, so a
  member \<^verbatim>\<open>flags_\<close> of the source is the field \<open>flags\<close>, and \<^verbatim>\<open>id_\<close> is \<open>sid\<close>.
  The pair \<^verbatim>\<open>queue_head_\<close> and \<^verbatim>\<open>queue_tail_\<close> is the list \<open>queue\<close>.
\<close>

record Nghttp2Stream =
  session :: bool   \<comment> \<open>\<^verbatim>\<open>session_ != nullptr\<close>: there is one session\<close>
  queue :: "nghttp2_stream_write_queue list"
  data_chunks_head :: "addr option"
  data_chunks_tail :: "addr option"
  current_headers_head :: "addr option"
  current_headers_tail :: "addr option"
  current_headers_category :: nghttp2_headers_category
  flags :: "nghttp2_stream_flags set"
  sid :: int32_t
  code :: int32_t
  prev_local_window_size :: int32_t
  queue_head_index :: nat
  queue_head_offset :: nat

text \<open>
  What the core does to its collaborators, in the order it does it: the calls of the
  external consumer's handlers, the calls into the protocol engine, the buffers handed to
  the transport, the completion callbacks of write requests and the bytes copied into the
  engine's DATA buffer by the outbound pull. The headers handler is given the head of the
  stream's header list; its event holds the entries that list has at that moment.
\<close>

datatype event =
    EvOnDataChunk int32_t uv_buf_t
  | EvOnHeaders int32_t "(nghttp2_rcbuf \<times> nghttp2_rcbuf) list" nghttp2_headers_category byte
  | EvOnStreamClose int32_t int32_t
  | EvOnSettings
  | EvOnPriority int32_t int32_t int32_t byte
  | EvOnTrailers int32_t
  | EvWriteCb nat nat int
  | EvMemcpy uv_buf_t
  | EvSend uv_buf_t
  | EvRcbufIncref nghttp2_rcbuf
  | EvRcbufDecref nghttp2_rcbuf
  | EvResumeData int32_t
  | EvSubmitTrailer int32_t "nghttp2_nv list"

text \<open>
  The session together with the process-wide pools and the state of its collaborators:
  the store of stream objects, the registry \<^verbatim>\<open>streams_\<close>, the stores of data chunks
  and of header nodes, the free lists of stream objects, data chunks and header nodes,
  the engine's local window per stream and its queue of serialized chunks, the length of the
  buffers the transport allocates, and the trace of events.
\<close>

record world =
  heap :: "addr \<rightharpoonup> Nghttp2Stream"
  next_addr :: addr
  streams :: "int32_t \<rightharpoonup> addr"
  stream_free_list :: "addr list"
  chunk_store :: "uv_buf_t node_store"
  header_store :: "(nghttp2_rcbuf \<times> nghttp2_rcbuf) node_store"
  data_chunk_free_list :: "addr list"
  header_free_list :: "addr list"
  local_window :: "int32_t \<rightharpoonup> int32_t"
  engine_out :: "uv_buf_t list"
  send_len :: nat
  trace :: "event list"

section \<open>Constants and collaborators\<close>

text \<open>
  The capacity of the pools is defined in the source. The other constants are those of
  nghttp2 and libuv that the two files use, with the values these libraries give them.
\<close>

definition FREELIST_MAX :: nat where
  "FREELIST_MAX = 1024"

definition NGHTTP2_NO_ERROR :: int32_t where
  "NGHTTP2_NO_ERROR = 0"

definition NGHTTP2_FLAG_ACK :: byte where
  "NGHTTP2_FLAG_ACK = 1"

definition NGHTTP2_ERR_DEFERRED :: int where
  "NGHTTP2_ERR_DEFERRED = - 508"

definition UV_EOF :: int where
  "UV_EOF = - 4095"

text \<open>
  Modelled from the spec: the class \<^verbatim>\<open>Freelist\<close> of \<^verbatim>\<open>freelist.h\<close> is missing.
  The pool returns a recycled instance if it is non-empty, else allocates a fresh one;
  release returns the instance to the pool if it is below its capacity bound, else
  deallocates it; the pool never clears the state of an instance. So a recycled node
  comes back with the \<^verbatim>\<open>next\<close> pointer it was released with, a fresh node is
  value-initialised (its \<^verbatim>\<open>next\<close> is null) and gets an address no node of the store
  has, and a node released to a full pool is taken out of the store. The spec gives no
  order among the instances of a pool; here the pool is the list of the addresses it
  holds, released at the back and handed out from the front.
\<close>

definition fresh_addr :: "'a node_store \<Rightarrow> addr" where
  "fresh_addr st = foldr (\<lambda>k m. max (Suc k) m) (map fst st) 0"

definition freelist_pop ::
  "'a \<Rightarrow> 'a node_store \<Rightarrow> addr list \<Rightarrow> addr \<times> 'a node_store \<times> addr list" where
  "freelist_pop blank st pool =
     (case pool of
        [] \<Rightarrow> (fresh_addr st,
               AList.update (fresh_addr st) \<lparr>item = blank, next_node = None\<rparr> st, [])
      | a # rest \<Rightarrow> (a, st, rest))"

definition freelist_push ::
  "addr \<Rightarrow> 'a node_store \<Rightarrow> addr list \<Rightarrow> 'a node_store \<times> addr list" where
  "freelist_push a st pool =
     (if length pool < FREELIST_MAX then (st, pool @ [a]) else (AList.delete a st, pool))"

text \<open>
  The macro \<^verbatim>\<open>LINKED_LIST_ADD\<close>: with no tail the node becomes head and tail, else it
  is linked behind the tail and becomes the tail. The \<^verbatim>\<open>next\<close> pointer of the node
  itself is not written. \<^verbatim>\<open>OnDataChunkReceived\<close> has the same steps written out.
\<close>

definition LINKED_LIST_ADD ::
  "'a node_store \<Rightarrow> addr option \<Rightarrow> addr option \<Rightarrow> addr \<Rightarrow>
     error + 'a node_store \<times> addr option \<times> addr option" where
  "LINKED_LIST_ADD st list_head list_tail a =
     (case list_tail of
        None \<Rightarrow> Inr (st, Some a, Some a)
      | Some t \<Rightarrow>
          (case map_of st t of
             None \<Rightarrow> Inl Dangling
           | Some tn \<Rightarrow> Inr (AList.update t (tn\<lparr>next_node := Some a\<rparr>) st, list_head, Some a)))"

text \<open>
  What a reader finds who walks a list from its head: the items of the nodes on the
  way. The walk is cut off after \<open>n\<close> nodes; with \<open>n\<close> the size of the store a list
  that does not come back to one of its nodes has ended by then.
\<close>

fun list_items :: "nat \<Rightarrow> 'a node_store \<Rightarrow> addr option \<Rightarrow> 'a list" where
  "list_items 0 st h = []"
| "list_items (Suc n) st None = []"
| "list_items (Suc n) st (Some a) =
     (case map_of st a of
        None \<Rightarrow> []
      | Some node \<Rightarrow> item node # list_items n st (next_node node))"

text \<open>
  Modelled from the spec: the pool of stream objects. A recycled object keeps its address;
  a fresh one gets the next address of the allocator. An object released to a full pool
  is deallocated, which takes it out of the store.
\<close>

definition stream_free_list_pop :: "world \<Rightarrow> addr \<times> world" where
  "stream_free_list_pop w =
     (case stream_free_list w of
        [] \<Rightarrow> (next_addr w, w\<lparr>next_addr := next_addr w + 1\<rparr>)
      | p # ps \<Rightarrow> (p, w\<lparr>stream_free_list := ps\<rparr>))"

definition stream_free_list_push :: "addr \<Rightarrow> world \<Rightarrow> world" where
  "stream_free_list_push p w =
     (if length (stream_free_list w) < FREELIST_MAX
      then w\<lparr>stream_free_list := stream_free_list w @ [p]\<rparr>
      else w\<lparr>heap := (heap w)(p := None)\<rparr>)"

text \<open>
  Modelled from the spec: the accessors of \<^verbatim>\<open>Nghttp2Stream\<close> declared in
  \<^verbatim>\<open>node_http2_core.h\<close>, which is missing. A stream is not writable when it is already
  half-closed locally, closed, or destroying; it is reading when reading has started and
  is not paused (the comment in \<^verbatim>\<open>ReadStop\<close> says the same).
\<close>

definition IsWritable :: "Nghttp2Stream \<Rightarrow> bool" where
  "IsWritable s \<longleftrightarrow>
     NGHTTP2_STREAM_FLAG_SHUT \<notin> flags s \<and> NGHTTP2_STREAM_CLOSED \<notin> flags s \<and>
     NGHTTP2_STREAM_DESTROYING \<notin> flags s"

definition IsPaused :: "Nghttp2Stream \<Rightarrow> bool" where
  "IsPaused s \<longleftrightarrow> NGHTTP2_STREAM_READ_PAUSED \<in> flags s"

definition IsReading :: "Nghttp2Stream \<Rightarrow> bool" where
  "IsReading s \<longleftrightarrow>
     NGHTTP2_STREAM_READ_START \<in> flags s \<and> NGHTTP2_STREAM_READ_PAUSED \<notin> flags s"

definition IsDestroying :: "Nghttp2Stream \<Rightarrow> bool" where
  "IsDestroying s \<longleftrightarrow> NGHTTP2_STREAM_DESTROYING \<in> flags s"

definition IsDestroyed :: "Nghttp2Stream \<Rightarrow> bool" where
  "IsDestroyed s \<longleftrightarrow> NGHTTP2_STREAM_DESTROYED \<in> flags s"

text \<open>
  Modelled from the spec: the protocol engine's \<^verbatim>\<open>get/set_local_window\<close>. Reading the
  window of a stream the engine does not know gives a negative value.
\<close>

definition nghttp2_session_get_stream_local_window_size :: "world \<Rightarrow> int32_t \<Rightarrow> int32_t" where
  "nghttp2_session_get_stream_local_window_size w i =
     (case local_window w i of None \<Rightarrow> - 1 | Some v \<Rightarrow> v)"

definition nghttp2_session_set_local_window_size :: "int32_t \<Rightarrow> int32_t \<Rightarrow> world \<Rightarrow> world" where
  "nghttp2_session_set_local_window_size i v w = w\<lparr>local_window := (local_window w)(i \<mapsto> v)\<rparr>"

definition emit :: "event list \<Rightarrow> world \<Rightarrow> world" where
  "emit es w = w\<lparr>trace := trace w @ es\<rparr>"

section \<open>The registry\<close>

definition FindStream :: "world \<Rightarrow> int32_t \<Rightarrow> addr option" where
  "FindStream w i = streams w i"

definition AddStream :: "addr \<Rightarrow> Nghttp2Stream \<Rightarrow> world \<Rightarrow> world" where
  "AddStream p s w = w\<lparr>streams := (streams w)(sid s \<mapsto> p)\<rparr>"

definition RemoveStream :: "int32_t \<Rightarrow> world \<Rightarrow> world" where
  "RemoveStream i w = w\<lparr>streams := (streams w)(i := None)\<rparr>"

section \<open>Stream lifecycle\<close>

definition ResetState :: "int32_t \<Rightarrow> nghttp2_headers_category \<Rightarrow> Nghttp2Stream" where
  "ResetState i category =
     \<lparr> session = True, queue = [], data_chunks_head = None, data_chunks_tail = None,
       current_headers_head = None, current_headers_tail = None,
       current_headers_category = category, flags = {}, sid = i,
       code = NGHTTP2_NO_ERROR, prev_local_window_size = 65535,
       queue_head_index = 0, queue_head_offset = 0 \<rparr>"

definition Init :: "int32_t \<Rightarrow> nghttp2_headers_category \<Rightarrow> world \<Rightarrow> addr \<times> world" where
  "Init i category w =
     (let (p, w1) = stream_free_list_pop w;
          s = ResetState i category;
          w2 = w1\<lparr>heap := (heap w1)(p \<mapsto> s)\<rparr>
      in (p, AddStream p s w2))"

text \<open>
  The loop of \<^verbatim>\<open>FreeHeaders\<close>: the head node is unlinked, its value loses a
  reference and the node goes back to its pool, until the head is null. The loop reads
  the \<^verbatim>\<open>next\<close> pointer of whatever node it reaches; a node that is no longer in the
  store is the error \<open>Dangling\<close>. Every round either adds to the pool or takes a node
  out of the store, so the loop ends, also on a list that comes back to one of its nodes.
\<close>

function FreeHeaders_loop ::
  "addr option \<Rightarrow> (nghttp2_rcbuf \<times> nghttp2_rcbuf) node_store \<Rightarrow> addr list \<Rightarrow> event list \<Rightarrow>
     error + (nghttp2_rcbuf \<times> nghttp2_rcbuf) node_store \<times> addr list \<times> event list" where
  "FreeHeaders_loop h st pool tr =
     (case h of
        None \<Rightarrow> Inr (st, pool, tr)
      | Some a \<Rightarrow>
          (case map_of st a of
             None \<Rightarrow> Inl Dangling
           | Some node \<Rightarrow>
               FreeHeaders_loop (next_node node) (fst (freelist_push a st pool))
                 (snd (freelist_push a st pool)) (tr @ [EvRcbufDecref (snd (item node))])))"
  by pat_completeness auto
termination
  by (relation "measure (\<lambda>(h, st, pool, tr). (FREELIST_MAX - length pool) + length st)")
     (auto simp: freelist_push_def AList.delete_eq dest!: map_of_SomeD intro!: length_filter_less)

declare FreeHeaders_loop.simps [simp del]

definition FreeHeaders :: "addr \<Rightarrow> world \<Rightarrow> error + world" where
  "FreeHeaders p w =
     (case heap w p of
        None \<Rightarrow> Inl Dangling
      | Some s \<Rightarrow>
          (case FreeHeaders_loop (current_headers_head s) (header_store w) (header_free_list w)
                  (trace w) of
             Inl e \<Rightarrow> Inl e
           | Inr (st, pool, tr) \<Rightarrow>
               Inr (w\<lparr>heap := (heap w)(p \<mapsto> s\<lparr>current_headers_head := None,
                                                current_headers_tail := None\<rparr>),
                      header_store := st, header_free_list := pool, trace := tr\<rparr>)))"

text \<open>The loop of \<^verbatim>\<open>Destroy\<close> that frees the remaining data chunks.\<close>

function Destroy_chunks ::
  "addr option \<Rightarrow> uv_buf_t node_store \<Rightarrow> addr list \<Rightarrow>
     error + uv_buf_t node_store \<times> addr list" where
  "Destroy_chunks h st pool =
     (case h of
        None \<Rightarrow> Inr (st, pool)
      | Some a \<Rightarrow>
          (case map_of st a of
             None \<Rightarrow> Inl Dangling
           | Some chunk \<Rightarrow>
               Destroy_chunks (next_node chunk) (fst (freelist_push a st pool))
                 (snd (freelist_push a st pool))))"
  by pat_completeness auto
termination
  by (relation "measure (\<lambda>(h, st, pool). (FREELIST_MAX - length pool) + length st)")
     (auto simp: freelist_push_def AList.delete_eq dest!: map_of_SomeD intro!: length_filter_less)

declare Destroy_chunks.simps [simp del]

definition Destroy :: "addr \<Rightarrow> world \<Rightarrow> error + world" where
  "Destroy p w =
     (case heap w p of
        None \<Rightarrow> Inl Dangling
      | Some s \<Rightarrow>
          if IsDestroyed s \<or> IsDestroying s then Inr w
          else
            (let s1 = s\<lparr>flags := insert NGHTTP2_STREAM_DESTROYING (flags s)\<rparr>;
                 w1 = (if session s1 then RemoveStream (sid s1) w else w);
                 s2 = (if session s1 then s1\<lparr>session := False\<rparr> else s1)
             in case Destroy_chunks (data_chunks_head s2) (chunk_store w1)
                       (data_chunk_free_list w1) of
                  Inl e \<Rightarrow> Inl e
                | Inr (st, pool) \<Rightarrow>
                    (let s3 = s2\<lparr>data_chunks_head := None, data_chunks_tail := None\<rparr>;
                         w2 = w1\<lparr>heap := (heap w1)(p \<mapsto> s3), chunk_store := st,
                                 data_chunk_free_list := pool\<rparr>
                     in case FreeHeaders p w2 of
                          Inl e \<Rightarrow> Inl e
                        | Inr w3 \<Rightarrow> Inr (stream_free_list_push p w3))))"

text \<open>
  Modelled from the spec: \<^verbatim>\<open>Nghttp2Stream::Close\<close> and \<^verbatim>\<open>StartHeaders\<close> are declared
  in the missing header. Closing delivers the closure code to the external consumer,
  then destroys the stream; starting headers marks the stream as starting a new header
  block for the given category.
\<close>

definition Close :: "addr \<Rightarrow> int32_t \<Rightarrow> world \<Rightarrow> error + world" where
  "Close p c w =
     (case heap w p of
        None \<Rightarrow> Inl Dangling
      | Some s \<Rightarrow> Destroy p (emit [EvOnStreamClose (sid s) c] w))"

definition StartHeaders :: "addr \<Rightarrow> nghttp2_headers_category \<Rightarrow> world \<Rightarrow> error + world" where
  "StartHeaders p category w =
     (case heap w p of
        None \<Rightarrow> Inl Dangling
      | Some s \<Rightarrow> Inr (w\<lparr>heap := (heap w)(p \<mapsto> s\<lparr>current_headers_category := category\<rparr>)\<rparr>))"

section \<open>Callback dispatch\<close>

text \<open>
  The id a header block belongs to: the promised stream of a PUSH_PROMISE, else the
  stream of the frame header.
\<close>

definition frame_id :: "nghttp2_frame \<Rightarrow> int32_t" where
  "frame_id frame =
     (if hd_type frame = NGHTTP2_PUSH_PROMISE then promised_stream_id frame
      else hd_stream_id frame)"

definition OnBeginHeadersCallback :: "nghttp2_frame \<Rightarrow> world \<Rightarrow> error + int \<times> world" where
  "OnBeginHeadersCallback frame w =
     (case FindStream w (frame_id frame) of
        None \<Rightarrow> Inr (0, snd (Init (frame_id frame) (headers_cat frame) w))
      | Some p \<Rightarrow>
          (case StartHeaders p (headers_cat frame) w of
             Inl e \<Rightarrow> Inl e
           | Inr w' \<Rightarrow> Inr (0, w')))"

text \<open>
  The header node is taken from its pool, its name and value are set and both buffers
  gain a reference; then the node is linked at the tail of the stream's list. With no
  stream for the id the link reads through a null pointer.
\<close>

definition OnHeaderCallback ::
  "nghttp2_frame \<Rightarrow> nghttp2_rcbuf \<Rightarrow> nghttp2_rcbuf \<Rightarrow> world \<Rightarrow> error + int \<times> world" where
  "OnHeaderCallback frame name val w =
     (case FindStream w (frame_id frame) of
        None \<Rightarrow> Inl NullDeref
      | Some p \<Rightarrow>
          (case heap w p of
             None \<Rightarrow> Inl Dangling
           | Some s \<Rightarrow>
               (let (a, st1, pool1) =
                      freelist_pop ('''', '''') (header_store w) (header_free_list w)
                in case map_of st1 a of
                     None \<Rightarrow> Inl Dangling
                   | Some header \<Rightarrow>
                       (case LINKED_LIST_ADD (AList.update a (header\<lparr>item := (name, val)\<rparr>) st1)
                               (current_headers_head s) (current_headers_tail s) a of
                          Inl e \<Rightarrow> Inl e
                        | Inr (st2, list_head, list_tail) \<Rightarrow>
                            Inr (0, w\<lparr>heap := (heap w)(p \<mapsto> s\<lparr>current_headers_head := list_head,
                                                               current_headers_tail := list_tail\<rparr>),
                                       header_store := st2, header_free_list := pool1,
                                       trace := trace w @ [EvRcbufIncref name, EvRcbufIncref val]\<rparr>)))))"

text \<open>
  The loop of \<^verbatim>\<open>HandleDataFrame\<close>: the head chunk is unlinked, passed to
  \<^verbatim>\<open>OnDataChunk\<close>, its bytes are freed and the node is returned to its pool, until the
  head is null. Freeing the bytes leaves the node's pointer and length as they are; the
  model keeps the bytes the pointer pointed to.
\<close>

function HandleDataFrame_loop ::
  "int32_t \<Rightarrow> addr option \<Rightarrow> uv_buf_t node_store \<Rightarrow> addr list \<Rightarrow> event list \<Rightarrow>
     error + uv_buf_t node_store \<times> addr list \<times> event list" where
  "HandleDataFrame_loop i h st pool tr =
     (case h of
        None \<Rightarrow> Inr (st, pool, tr)
      | Some a \<Rightarrow>
          (case map_of st a of
             None \<Rightarrow> Inl Dangling
           | Some chunk \<Rightarrow>
               HandleDataFrame_loop i (next_node chunk) (fst (freelist_push a st pool))
                 (snd (freelist_push a st pool)) (tr @ [EvOnDataChunk i (item chunk)])))"
  by pat_completeness auto
termination
  by (relation "measure (\<lambda>(i, h, st, pool, tr). (FREELIST_MAX - length pool) + length st)")
     (auto simp: freelist_push_def AList.delete_eq dest!: map_of_SomeD intro!: length_filter_less)

declare HandleDataFrame_loop.simps [simp del]

definition HandleDataFrame :: "nghttp2_frame \<Rightarrow> world \<Rightarrow> error + world" where
  "HandleDataFrame frame w =
     (case FindStream w (hd_stream_id frame) of
        None \<Rightarrow> Inl CheckFailed
      | Some p \<Rightarrow>
          (case heap w p of
             None \<Rightarrow> Inl Dangling
           | Some s \<Rightarrow>
               (case HandleDataFrame_loop (sid s) (data_chunks_head s) (chunk_store w)
                       (data_chunk_free_list w) (trace w) of
                  Inl e \<Rightarrow> Inl e
                | Inr (st, pool, tr) \<Rightarrow>
                    Inr (w\<lparr>heap := (heap w)(p \<mapsto> s\<lparr>data_chunks_head := None,
                                                     data_chunks_tail := None\<rparr>),
                           chunk_store := st, data_chunk_free_list := pool, trace := tr\<rparr>))))"

definition HandleHeadersFrame :: "nghttp2_frame \<Rightarrow> world \<Rightarrow> error + world" where
  "HandleHeadersFrame frame w =
     (case FindStream w (frame_id frame) of
        None \<Rightarrow> Inl CheckFailed
      | Some p \<Rightarrow>
          (case heap w p of
             None \<Rightarrow> Inl Dangling
           | Some s \<Rightarrow>
               FreeHeaders p
                 (emit [EvOnHeaders (sid s)
                          (list_items (length (header_store w)) (header_store w)
                             (current_headers_head s))
                          (current_headers_category s) (hd_flags frame)] w)))"

definition HandlePriorityFrame :: "nghttp2_frame \<Rightarrow> world \<Rightarrow> world" where
  "HandlePriorityFrame frame w =
     (if 0 < sint (hd_stream_id frame)
      then emit [EvOnPriority (hd_stream_id frame) (pri_spec_stream_id frame)
                   (pri_spec_weight frame) (pri_spec_exclusive frame)] w
      else w)"

definition OnFrameReceive :: "nghttp2_frame \<Rightarrow> world \<Rightarrow> error + int \<times> world" where
  "OnFrameReceive frame w =
     (case hd_type frame of
        NGHTTP2_DATA \<Rightarrow>
          (case HandleDataFrame frame w of Inl e \<Rightarrow> Inl e | Inr w' \<Rightarrow> Inr (0, w'))
      | NGHTTP2_PUSH_PROMISE \<Rightarrow>
          (case HandleHeadersFrame frame w of Inl e \<Rightarrow> Inl e | Inr w' \<Rightarrow> Inr (0, w'))
      | NGHTTP2_HEADERS \<Rightarrow>
          (case HandleHeadersFrame frame w of Inl e \<Rightarrow> Inl e | Inr w' \<Rightarrow> Inr (0, w'))
      | NGHTTP2_SETTINGS \<Rightarrow>
          (if hd_flags frame AND NGHTTP2_FLAG_ACK = 0 then Inr (0, emit [EvOnSettings] w)
           else Inr (0, w))
      | NGHTTP2_PRIORITY \<Rightarrow> Inr (0, HandlePriorityFrame frame w)
      | _ \<Rightarrow> Inr (0, w))"

definition OnStreamClose :: "int32_t \<Rightarrow> int32_t \<Rightarrow> world \<Rightarrow> error + int \<times> world" where
  "OnStreamClose i c w =
     (case FindStream w i of
        None \<Rightarrow> Inr (0, w)
      | Some p \<Rightarrow> (case Close p c w of Inl e \<Rightarrow> Inl e | Inr w' \<Rightarrow> Inr (0, w')))"

text \<open>
  The chunk node comes from its pool, the bytes are copied into a buffer of its own and
  the node is linked at the tail of the stream's inbound queue. The \<^verbatim>\<open>next\<close> pointer
  of the node is not written.
\<close>

definition OnDataChunkReceived :: "int32_t \<Rightarrow> uv_buf_t \<Rightarrow> world \<Rightarrow> error + int \<times> world" where
  "OnDataChunkReceived i data w =
     (case FindStream w i of
        None \<Rightarrow> Inl NullDeref
      | Some p \<Rightarrow>
          (case heap w p of
             None \<Rightarrow> Inl Dangling
           | Some s \<Rightarrow>
               (let (a, st1, pool1) = freelist_pop [] (chunk_store w) (data_chunk_free_list w)
                in case map_of st1 a of
                     None \<Rightarrow> Inl Dangling
                   | Some chunk \<Rightarrow>
                       (case LINKED_LIST_ADD (AList.update a (chunk\<lparr>item := data\<rparr>) st1)
                               (data_chunks_head s) (data_chunks_tail s) a of
                          Inl e \<Rightarrow> Inl e
                        | Inr (st2, list_head, list_tail) \<Rightarrow>
                            Inr (0, w\<lparr>heap := (heap w)(p \<mapsto> s\<lparr>data_chunks_head := list_head,
                                                               data_chunks_tail := list_tail\<rparr>),
                                       chunk_store := st2, data_chunk_free_list := pool1\<rparr>)))))"

section \<open>The outbound pull\<close>

text \<open>
  The inner loop of \<^verbatim>\<open>OnStreamRead\<close> over the buffers of the head request. The
  variables are the cursor (\<^verbatim>\<open>queue_head_index_\<close>, \<^verbatim>\<open>queue_head_offset_\<close>), the bytes
  written to the engine's buffer so far (\<^verbatim>\<open>offset\<close> is their number), the space that
  remains and the events so far. The first component of the result says whether the
  loop left through \<^verbatim>\<open>goto end\<close>. With the cursor's offset beyond the end of its buffer
  the unsigned subtraction of the source wraps around and the copy reads outside the
  buffer; that is the error \<open>OutOfBounds\<close>.
\<close>

function OnStreamRead_inner ::
  "nghttp2_stream_write_queue \<Rightarrow> nat \<Rightarrow> nat \<Rightarrow> uv_buf_t \<Rightarrow> nat \<Rightarrow> event list \<Rightarrow>
     error + bool \<times> nat \<times> nat \<times> uv_buf_t \<times> nat \<times> event list" where
  "OnStreamRead_inner head idx off out remaining tr =
     (if idx < length (bufs head) then
        (if remaining = 0 then Inr (True, idx, off, out, remaining, tr)
         else if length (bufs head ! idx) < off then Inl OutOfBounds
         else
           (let len = length (bufs head ! idx) - off;
                bytes_to_write = (if len < remaining then len else remaining);
                copied = take bytes_to_write (drop off (bufs head ! idx))
            in if bytes_to_write < len
               then OnStreamRead_inner head idx (off + bytes_to_write) (out @ copied)
                      (remaining - bytes_to_write) (tr @ [EvMemcpy copied])
               else OnStreamRead_inner head (idx + 1) 0 (out @ copied)
                      (remaining - bytes_to_write) (tr @ [EvMemcpy copied])))
      else Inr (False, idx, off, out, remaining, tr))"
  by pat_completeness auto
termination
  by (relation "measure (\<lambda>(head, idx, off, out, remaining, tr).
        2 * (length (bufs head) - idx) + (if remaining = 0 then 0 else 1))")
     (auto simp: Let_def split: if_splits)

text \<open>
  The outer loop over the write queue: when the head request is exhausted the cursor is
  reset, the head is unlinked and its callback is called with status 0.
\<close>

fun OnStreamRead_loop ::
  "nghttp2_stream_write_queue list \<Rightarrow> nat \<Rightarrow> nat \<Rightarrow> uv_buf_t \<Rightarrow> nat \<Rightarrow> event list \<Rightarrow>
     error + nghttp2_stream_write_queue list \<times> nat \<times> nat \<times> uv_buf_t \<times> nat \<times> event list" where
  "OnStreamRead_loop [] idx off out remaining tr = Inr ([], idx, off, out, remaining, tr)"
| "OnStreamRead_loop (head # rest) idx off out remaining tr =
     (case OnStreamRead_inner head idx off out remaining tr of
        Inl e \<Rightarrow> Inl e
      | Inr (at_end, idx', off', out', remaining', tr') \<Rightarrow>
          if at_end then Inr (head # rest, idx', off', out', remaining', tr')
          else
            (case cb head of
               None \<Rightarrow> Inl NullCallback
             | Some f \<Rightarrow>
                 OnStreamRead_loop rest 0 0 out' remaining' (tr' @ [EvWriteCb f (req head) 0])))"

text \<open>
  \<^verbatim>\<open>OnStreamRead\<close>: \<open>n\<close> is the length of the engine's buffer, \<open>fl\<close> the data flags on
  entry and \<open>trailers\<close> what the external consumer's \<^verbatim>\<open>OnTrailers\<close> fills in when it is
  asked. The result is the return value, the bytes written to the engine's buffer, the
  data flags and the new state.
\<close>

definition OnStreamRead ::
  "int32_t \<Rightarrow> nat \<Rightarrow> nghttp2_data_flag set \<Rightarrow> nghttp2_nv list \<Rightarrow> world \<Rightarrow>
     error + int \<times> uv_buf_t \<times> nghttp2_data_flag set \<times> world" where
  "OnStreamRead i n fl trailers w =
     (case FindStream w i of
        None \<Rightarrow> Inl NullDeref
      | Some p \<Rightarrow>
          (case heap w p of
             None \<Rightarrow> Inl Dangling
           | Some s \<Rightarrow>
               (case OnStreamRead_loop (queue s) (queue_head_index s) (queue_head_offset s) [] n [] of
                  Inl e \<Rightarrow> Inl e
                | Inr (q, idx, off, out, remaining, tr) \<Rightarrow>
                    (let s' = s\<lparr>queue := q, queue_head_index := idx, queue_head_offset := off\<rparr>;
                         w1 = emit tr (w\<lparr>heap := (heap w)(p \<mapsto> s')\<rparr>);
                         offset = length out;
                         writable = (q \<noteq> [] \<or> IsWritable s')
                     in if offset = 0 \<and> writable \<and> q = []
                        then Inr (NGHTTP2_ERR_DEFERRED, out, fl, w1)
                        else
                          (let fl' = (if \<not> writable
                                      then insert NGHTTP2_DATA_FLAG_EOF fl \<union>
                                           (if trailers \<noteq> [] then {NGHTTP2_DATA_FLAG_NO_END_STREAM} else {})
                                      else fl);
                               w2 = (if \<not> writable
                                     then emit (EvOnTrailers (sid s') #
                                                (if trailers \<noteq> [] then [EvSubmitTrailer (sid s') trailers] else [])) w1
                                     else w1)
                           in if offset \<le> n then Inr (int offset, out, fl', w2)
                              else Inl AssertFailed)))))"

section \<open>Stream operations\<close>

text \<open>
  \<^verbatim>\<open>Nghttp2Stream::Write\<close>: \<open>r\<close> is the request, \<open>bs\<close> the caller's buffers and \<open>c\<close> the
  completion callback.
\<close>

definition Nghttp2Stream_Write ::
  "addr \<Rightarrow> nat \<Rightarrow> uv_buf_t list \<Rightarrow> nat option \<Rightarrow> world \<Rightarrow> error + int \<times> world" where
  "Nghttp2Stream_Write p r bs c w =
     (case heap w p of
        None \<Rightarrow> Inl Dangling
      | Some s \<Rightarrow>
          if \<not> IsWritable s then
            (case c of
               None \<Rightarrow> Inr (0, w)
             | Some f \<Rightarrow> Inr (0, emit [EvWriteCb f r UV_EOF] w))
          else if \<not> session s then Inl NullDeref
          else
            Inr (0, emit [EvResumeData (sid s)]
                      (w\<lparr>heap := (heap w)(p \<mapsto> s\<lparr>queue := queue s @ [\<lparr>cb = c, req = r, bufs = bs\<rparr>]\<rparr>)\<rparr>)))"

definition ReadStart :: "addr \<Rightarrow> world \<Rightarrow> error + world" where
  "ReadStart p w =
     (case heap w p of
        None \<Rightarrow> Inl Dangling
      | Some s \<Rightarrow>
          if IsPaused s \<and> \<not> session s then Inl NullDeref
          else
            (let w1 = (if IsPaused s
                       then nghttp2_session_set_local_window_size (sid s) (prev_local_window_size s) w
                       else w);
                 s' = s\<lparr>flags := insert NGHTTP2_STREAM_READ_START (flags s) - {NGHTTP2_STREAM_READ_PAUSED}\<rparr>
             in Inr (w1\<lparr>heap := (heap w1)(p \<mapsto> s')\<rparr>)))"

definition ReadStop :: "addr \<Rightarrow> world \<Rightarrow> error + world" where
  "ReadStop p w =
     (case heap w p of
        None \<Rightarrow> Inl Dangling
      | Some s \<Rightarrow>
          if \<not> IsReading s then Inr w
          else if \<not> session s then Inl NullDeref
          else
            (let s1 = s\<lparr>flags := insert NGHTTP2_STREAM_READ_PAUSED (flags s)\<rparr>;
                 ret = nghttp2_session_get_stream_local_window_size w (sid s1);
                 s2 = (if 0 \<le> sint ret then s1\<lparr>prev_local_window_size := ret\<rparr> else s1);
                 w1 = nghttp2_session_set_local_window_size (sid s2) 0 w
             in Inr (w1\<lparr>heap := (heap w1)(p \<mapsto> s2)\<rparr>)))"

section \<open>The send pipeline\<close>

text \<open>
  Modelled from the spec: the transport's \<^verbatim>\<open>AllocateSend\<close> and the engine's pull are
  declared outside the two files. The transport hands out a buffer whose \<^verbatim>\<open>len\<close> is
  \<open>send_len\<close>; the engine's pull gives the next serialized chunk and its length, and
  length 0 when nothing remains. \<^verbatim>\<open>memcpy\<close> overwrites the destination from an offset on.
\<close>

definition AllocateSend :: "nat \<Rightarrow> uv_buf_t" where
  "AllocateSend alen = replicate alen 0"

definition memcpy :: "uv_buf_t \<Rightarrow> nat \<Rightarrow> uv_buf_t \<Rightarrow> uv_buf_t" where
  "memcpy dst at src = take at dst @ src @ drop (at + length src) dst"

text \<open>
  The inner loop of \<^verbatim>\<open>SendPendingData\<close> on one pulled chunk \<open>data\<close>, of which
  \<open>amount\<close> bytes are still to be copied. A transport whose buffers have length 0 keeps
  this loop running forever, so the result is an option and \<open>None\<close> is no result.
\<close>

partial_function (option) SendPendingData_inner ::
  "nat \<Rightarrow> uv_buf_t \<Rightarrow> nat \<Rightarrow> nat \<Rightarrow> nat \<Rightarrow> uv_buf_t \<Rightarrow> nat \<Rightarrow> event list \<Rightarrow>
     (nat \<times> nat \<times> uv_buf_t \<times> nat \<times> event list) option" where
  "SendPendingData_inner alen data amount offset src_offset current remaining tr =
     (if 0 < amount then
        (if remaining < amount then
           SendPendingData_inner alen data (amount - remaining) 0 remaining
             (AllocateSend alen) (length (AllocateSend alen))
             (tr @ [EvSend (take (offset + remaining)
                      (memcpy current offset (take remaining (drop src_offset data))))])
         else
           SendPendingData_inner alen data 0 (offset + amount) 0
             (memcpy current offset (take amount (drop src_offset data)))
             (remaining - amount) tr)
      else Some (offset, src_offset, current, remaining, tr))"

text \<open>
  The outer loop: one round per chunk the engine gives, until it gives none. The result
  keeps what the engine still holds.
\<close>

fun SendPendingData_loop ::
  "nat \<Rightarrow> uv_buf_t list \<Rightarrow> nat \<Rightarrow> nat \<Rightarrow> uv_buf_t \<Rightarrow> nat \<Rightarrow> event list \<Rightarrow>
     (uv_buf_t list \<times> nat \<times> uv_buf_t \<times> event list) option" where
  "SendPendingData_loop alen [] offset src_offset current remaining tr =
     Some ([], offset, current, tr)"
| "SendPendingData_loop alen (data # rest) offset src_offset current remaining tr =
     (if 0 < length data then
        (case SendPendingData_inner alen data (length data) offset src_offset current remaining tr of
           None \<Rightarrow> None
         | Some (offset', src_offset', current', remaining', tr') \<Rightarrow>
             SendPendingData_loop alen rest offset' src_offset' current' remaining' tr')
      else Some (rest, offset, current, tr))"

definition SendPendingData :: "world \<Rightarrow> world option" where
  "SendPendingData w =
     (let current = AllocateSend (send_len w)
      in case SendPendingData_loop (send_len w) (engine_out w) 0 0 current (length current) [] of
           None \<Rightarrow> None
         | Some (rest, offset, current', tr) \<Rightarrow>
             Some (emit (tr @ [EvSend (take offset current')]) (w\<lparr>engine_out := rest\<rparr>)))"

section \<open>Session write\<close>

text \<open>
  The loop of \<^verbatim>\<open>Nghttp2Session::Write\<close>. The engine's parser
  \<^verbatim>\<open>nghttp2_session_mem_recv\<close> is the parameter \<open>mem_recv\<close>: fed one buffer, it runs the
  callbacks on the state and gives the number of bytes it consumed or a negative error
  code. \<open>tot\<close> (the source's \<^verbatim>\<open>total\<close>) is a \<^verbatim>\<open>size_t\<close> and the return value an \<^verbatim>\<open>ssize_t\<close>, both 64 bits
  wide. The first component of the result says whether the loop returned early.
\<close>

fun Nghttp2Session_Write_loop ::
  "(uv_buf_t \<Rightarrow> world \<Rightarrow> error + ssize_t \<times> world) \<Rightarrow> uv_buf_t list \<Rightarrow> ssize_t \<Rightarrow> world \<Rightarrow>
     error + bool \<times> ssize_t \<times> world" where
  "Nghttp2Session_Write_loop mem_recv [] tot w = Inr (False, tot, w)"
| "Nghttp2Session_Write_loop mem_recv (b # bs) tot w =
     (case mem_recv b w of
        Inl e \<Rightarrow> Inl e
      | Inr (ret, w') \<Rightarrow>
          if sint ret < 0 then Inr (True, ret, w')
          else Nghttp2Session_Write_loop mem_recv bs (tot + ret) w')"

definition Nghttp2Session_Write ::
  "(uv_buf_t \<Rightarrow> world \<Rightarrow> error + ssize_t \<times> world) \<Rightarrow> uv_buf_t list \<Rightarrow> world \<Rightarrow>
     (error + ssize_t \<times> world) option" where
  "Nghttp2Session_Write mem_recv bs w =
     (case Nghttp2Session_Write_loop mem_recv bs 0 w of
        Inl e \<Rightarrow> Some (Inl e)
      | Inr (early, r, w') \<Rightarrow>
          if early then Some (Inr (r, w'))
          else
            (case SendPendingData w' of
               None \<Rightarrow> None
             | Some w'' \<Rightarrow> Some (Inr (r, w''))))"

section \<open>One inbound frame, as the engine reports it\<close>

text \<open>
  The engine reports a DATA frame that arrives in the chunks \<open>cs\<close> by one chunk callback
  for each, in order, and then the frame-complete callback.
\<close>

fun data_chunk_callbacks :: "int32_t \<Rightarrow> uv_buf_t list \<Rightarrow> world \<Rightarrow> error + world" where
  "data_chunk_callbacks i [] w = Inr w"
| "data_chunk_callbacks i (c # cs) w =
     (case OnDataChunkReceived i c w of
        Inl e \<Rightarrow> Inl e
      | Inr (r, w') \<Rightarrow> data_chunk_callbacks i cs w')"

definition data_frame_received :: "nghttp2_frame \<Rightarrow> uv_buf_t list \<Rightarrow> world \<Rightarrow> error + world" where
  "data_frame_received frame cs w =
     (case data_chunk_callbacks (hd_stream_id frame) cs w of
        Inl e \<Rightarrow> Inl e
      | Inr w' \<Rightarrow> (case OnFrameReceive frame w' of Inl e \<Rightarrow> Inl e | Inr (r, w'') \<Rightarrow> Inr w''))"

text \<open>
  A header block of the pairs \<open>nvs\<close> is reported by the begin-headers callback, one
  header callback for each pair, in order, and then the frame-complete callback.
\<close>

fun header_callbacks ::
  "nghttp2_frame \<Rightarrow> (nghttp2_rcbuf \<times> nghttp2_rcbuf) list \<Rightarrow> world \<Rightarrow> error + world" where
  "header_callbacks frame [] w = Inr w"
| "header_callbacks frame (nv # nvs) w =
     (case OnHeaderCallback frame (fst nv) (snd nv) w of
        Inl e \<Rightarrow> Inl e
      | Inr (r, w') \<Rightarrow> header_callbacks frame nvs w')"

definition headers_frame_received ::
  "nghttp2_frame \<Rightarrow> (nghttp2_rcbuf \<times> nghttp2_rcbuf) list \<Rightarrow> world \<Rightarrow> error + world" where
  "headers_frame_received frame nvs w =
     (case OnBeginHeadersCallback frame w of
        Inl e \<Rightarrow> Inl e
      | Inr (r, w1) \<Rightarrow>
          (case header_callbacks frame nvs w1 of
             Inl e \<Rightarrow> Inl e
           | Inr w2 \<Rightarrow> (case OnFrameReceive frame w2 of Inl e \<Rightarrow> Inl e | Inr (r', w3) \<Rightarrow> Inr w3)))"

text \<open>
  A list of nodes in order: from the head, the nodes at the addresses \<open>map fst as\<close>
  hold the items \<open>map snd as\<close>, each points to the next, and the last has a null
  \<^verbatim>\<open>next\<close> pointer.
\<close>

fun chain :: "'a node_store \<Rightarrow> addr option \<Rightarrow> (addr \<times> 'a) list \<Rightarrow> bool" where
  "chain st h [] = (h = None)"
| "chain st h (x # rest) =
     (h = Some (fst x) \<and>
      (case map_of st (fst x) of
         None \<Rightarrow> False
       | Some node \<Rightarrow> item node = snd x \<and> chain st (next_node node) rest))"

text \<open>
  A pool holds nodes as they were constructed when every address in it is there once,
  is in the store, and its node has a null \<^verbatim>\<open>next\<close> pointer. That is so for the
  empty pool, and it stays so as long as only single nodes are released.
\<close>

definition pool_clean :: "'a node_store \<Rightarrow> addr list \<Rightarrow> bool" where
  "pool_clean st pool =
     (distinct pool \<and>
      list_all (\<lambda>a. case map_of st a of None \<Rightarrow> False | Some node \<Rightarrow> next_node node = None) pool)"

text \<open>
  A list with head \<open>h\<close> and tail \<open>t\<close> is in order beside its pool when it is a list of
  nodes in order, no node is in it twice, the tail pointer is null for the empty list
  and else points at the last node, no node of the list is in the pool, and the pool
  holds nodes as they were constructed.
\<close>

definition list_ok ::
  "'a node_store \<Rightarrow> addr list \<Rightarrow> addr option \<Rightarrow> addr option \<Rightarrow> (addr \<times> 'a) list \<Rightarrow> bool" where
  "list_ok st pool h t as =
     (chain st h as \<and> distinct (map fst as) \<and>
      t = (if as = [] then None else Some (fst (last as))) \<and>
      list_all (\<lambda>a. a \<notin> set (map fst as)) pool \<and> pool_clean st pool)"

text \<open>Several frames, one after the other, each on the state the one before it left.\<close>

fun data_frames :: "(nghttp2_frame \<times> uv_buf_t list) list \<Rightarrow> world \<Rightarrow> error + world" where
  "data_frames [] w = Inr w"
| "data_frames (x # rest) w =
     (case data_frame_received (fst x) (snd x) w of
        Inl e \<Rightarrow> Inl e
      | Inr w' \<Rightarrow> data_frames rest w')"

fun header_blocks ::
  "(nghttp2_frame \<times> (nghttp2_rcbuf \<times> nghttp2_rcbuf) list) list \<Rightarrow> world \<Rightarrow> error + world" where
  "header_blocks [] w = Inr w"
| "header_blocks (x # rest) w =
     (case headers_frame_received (fst x) (snd x) w of
        Inl e \<Rightarrow> Inl e
      | Inr w' \<Rightarrow> header_blocks rest w')"

text \<open>The calls of one handler of the external consumer, read off a trace.\<close>

fun on_data_calls :: "event list \<Rightarrow> uv_buf_t list" where
  "on_data_calls [] = []"
| "on_data_calls (EvOnDataChunk i b # es) = b # on_data_calls es"
| "on_data_calls (e # es) = on_data_calls es"

fun on_headers_calls :: "event list \<Rightarrow> event list" where
  "on_headers_calls [] = []"
| "on_headers_calls (EvOnHeaders i hs c f # es) = EvOnHeaders i hs c f # on_headers_calls es"
| "on_headers_calls (e # es) = on_headers_calls es"

definition trace_of :: "error + world \<Rightarrow> event list" where
  "trace_of r = (case r of Inl e \<Rightarrow> [] | Inr w \<Rightarrow> trace w)"

text \<open>
  Feeding the buffers to the engine's parser in order, each on the state the feed before
  it left, as long as every feed succeeds: the consumed counts and the state after the
  last feed. \<open>None\<close> when a feed fails or aborts.
\<close>

fun feeds ::
  "(uv_buf_t \<Rightarrow> world \<Rightarrow> error + ssize_t \<times> world) \<Rightarrow> uv_buf_t list \<Rightarrow> world \<Rightarrow>
     (ssize_t list \<times> world) option" where
  "feeds mem_recv [] w = Some ([], w)"
| "feeds mem_recv (b # bs) w =
     (case mem_recv b w of
        Inl e \<Rightarrow> None
      | Inr (ret, w') \<Rightarrow>
          if sint ret < 0 then None
          else (case feeds mem_recv bs w' of
                  None \<Rightarrow> None
                | Some (rs, w'') \<Rightarrow> Some (ret # rs, w'')))"

section \<open>The order of write completions\<close>

text \<open>
  The bytes the head request of the write queue still owes, read from the cursor: the
  rest of the buffer the cursor is in and all the buffers after it.
\<close>

definition owed_head :: "nghttp2_stream_write_queue \<Rightarrow> nat \<Rightarrow> nat \<Rightarrow> uv_buf_t" where
  "owed_head h idx off =
     (if idx < length (bufs h) then drop off (bufs h ! idx) @ concat (drop (Suc idx) (bufs h))
      else [])"

text \<open>
  The cursor of the write queue is in order when it is at the start with an empty queue,
  and otherwise its offset is not beyond the end of the buffer its index points at.
\<close>

definition cursor_in_buffer :: "nghttp2_stream_write_queue list \<Rightarrow> nat \<Rightarrow> nat \<Rightarrow> bool" where
  "cursor_in_buffer q idx off =
     (case q of
        [] \<Rightarrow> idx = 0 \<and> off = 0
      | h # rest \<Rightarrow> idx < length (bufs h) \<longrightarrow> off \<le> length (bufs h ! idx))"

definition cursor_ok :: "Nghttp2Stream \<Rightarrow> bool" where
  "cursor_ok s = cursor_in_buffer (queue s) (queue_head_index s) (queue_head_offset s)"

text \<open>
  What the write queue still owes: for every queued request, oldest first, its callback,
  the request and the bytes of it that have not been copied out.
\<close>

definition pending ::
  "nghttp2_stream_write_queue list \<Rightarrow> nat \<Rightarrow> nat \<Rightarrow> (nat option \<times> nat \<times> uv_buf_t) list" where
  "pending q idx off =
     (case q of
        [] \<Rightarrow> []
      | h # rest \<Rightarrow> (cb h, req h, owed_head h idx off) # map (\<lambda>x. (cb x, req x, concat (bufs x))) rest)"

text \<open>
  Reading a trace against the requests that are pending, oldest first: a copy into the
  engine's buffer must copy the next bytes the oldest pending request owes, and a
  completion callback must be the one of the oldest pending request, called with status
  0 when that request owes no byte; the request is then no longer pending. Other events
  are passed over. The result is what is still pending at the end of the trace, and
  \<open>None\<close> if the trace breaks one of the two rules.
\<close>

fun replay ::
  "(nat option \<times> nat \<times> uv_buf_t) list \<Rightarrow> event list \<Rightarrow> (nat option \<times> nat \<times> uv_buf_t) list option" where
  "replay ps [] = Some ps"
| "replay ps (EvMemcpy bs # es) =
     (case ps of
        [] \<Rightarrow> None
      | (c, r, owed) # ps' \<Rightarrow>
          if take (length bs) owed = bs then replay ((c, r, drop (length bs) owed) # ps') es
          else None)"
| "replay ps (EvWriteCb f r st # es) =
     (case ps of
        [] \<Rightarrow> None
      | (c, r', owed) # ps' \<Rightarrow>
          if c = Some f \<and> r' = r \<and> st = 0 \<and> owed = [] then replay ps' es else None)"
| "replay ps (e # es) = replay ps es"

text \<open>The events of the two loops of the outbound pull.\<close>

fun pull_event :: "event \<Rightarrow> bool" where
  "pull_event (EvMemcpy b) = True"
| "pull_event (EvWriteCb f r st) = (st = 0)"
| "pull_event e = False"

text \<open>
  What happens to one stream between the engine and its writer: a write request with a
  callback is submitted, or the engine pulls.
\<close>

datatype stream_op =
    OpWrite nat "uv_buf_t list" nat
  | OpPull nat "nghttp2_data_flag set" "nghttp2_nv list"

fun run_ops :: "addr \<Rightarrow> int32_t \<Rightarrow> stream_op list \<Rightarrow> world \<Rightarrow> error + world" where
  "run_ops p i [] w = Inr w"
| "run_ops p i (OpWrite r bs f # ops) w =
     (case Nghttp2Stream_Write p r bs (Some f) w of
        Inl e \<Rightarrow> Inl e
      | Inr (ret, w') \<Rightarrow> run_ops p i ops w')"
| "run_ops p i (OpPull n fl trailers # ops) w =
     (case OnStreamRead i n fl trailers w of
        Inl e \<Rightarrow> Inl e
      | Inr (ret, out, fl', w') \<Rightarrow> run_ops p i ops w')"

text \<open>The write requests of a run, in the order of submission, each owing all its bytes.\<close>

fun submitted :: "stream_op list \<Rightarrow> (nat option \<times> nat \<times> uv_buf_t) list" where
  "submitted [] = []"
| "submitted (OpWrite r bs f # ops) = (Some f, r, concat bs) # submitted ops"
| "submitted (OpPull n fl trailers # ops) = submitted ops"

text \<open>The completion callbacks of a trace, in the order they were called.\<close>

fun write_cbs :: "event list \<Rightarrow> (nat option \<times> nat) list" where
  "write_cbs [] = []"
| "write_cbs (EvWriteCb f r st # es) = (Some f, r) # write_cbs es"
| "write_cbs (e # es) = write_cbs es"

section \<open>Example states\<close>

text \<open>
  A session with no stream, and one whose stream 1 has just been created at address 0
  and is known to the engine with the initial window.
\<close>

definition world0 :: world where
  "world0 =
     \<lparr> heap = Map.empty, next_addr = 0, streams = Map.empty, stream_free_list = [],
       chunk_store = [], header_store = [], data_chunk_free_list = [],
       header_free_list = [], local_window = Map.empty,
       engine_out = [], send_len = 2, trace = [] \<rparr>"

definition stream1 :: Nghttp2Stream where
  "stream1 = ResetState 1 NGHTTP2_HCAT_REQUEST"

definition world1 :: world where
  "world1 =
     world0\<lparr>heap := [0 \<mapsto> stream1], next_addr := 1, streams := [1 \<mapsto> 0],
            local_window := [1 \<mapsto> 65535]\<rparr>"

definition frame_of :: "nghttp2_frame_type \<Rightarrow> int32_t \<Rightarrow> nghttp2_frame" where
  "frame_of ty i =
     \<lparr> hd_type = ty, hd_stream_id = i, hd_flags = 0, hd_length = 0, promised_stream_id = 0,
       headers_cat = NGHTTP2_HCAT_REQUEST, pri_spec_stream_id = 0, pri_spec_weight = 16,
       pri_spec_exclusive = 0 \<rparr>"

text \<open>
  Stream 1 in other states: half-closed locally, reading with a window of 1000, holding
  buffered data and a header, and with one write request of three bytes queued.
\<close>

definition world1_shut :: world where
  "world1_shut = world1\<lparr>heap := [0 \<mapsto> stream1\<lparr>flags := {NGHTTP2_STREAM_FLAG_SHUT}\<rparr>]\<rparr>"

definition world1_reading :: world where
  "world1_reading =
     world1\<lparr>heap := [0 \<mapsto> stream1\<lparr>flags := {NGHTTP2_STREAM_READ_START}\<rparr>],
            local_window := [1 \<mapsto> 1000]\<rparr>"

definition world1_buffered :: world where
  "world1_buffered =
     world1\<lparr>heap := [0 \<mapsto> stream1\<lparr>data_chunks_head := Some 1, data_chunks_tail := Some 2,
                                     current_headers_head := Some 1,
                                     current_headers_tail := Some 1\<rparr>],
            chunk_store := [(1, \<lparr>item = [1, 2], next_node = Some 2\<rparr>),
                            (2, \<lparr>item = [3], next_node = None\<rparr>)],
            header_store := [(1, \<lparr>item = (''method'', ''GET''), next_node = None\<rparr>)]\<rparr>"



text \<open>
  A stand-in for the engine's parser, for the examples: it refuses an empty buffer with
  a negative code and otherwise consumes the whole buffer and queues it as output.
\<close>

definition echo_recv :: "uv_buf_t \<Rightarrow> world \<Rightarrow> error + ssize_t \<times> world" where
  "echo_recv b w =
     (if b = [] then Inr (- 902, w)
      else Inr (of_nat (length b), w\<lparr>engine_out := engine_out w @ [b]\<rparr>))"

section \<open>Basic facts\<close>

lemma emit_Nil: "emit [] w = w"
  by (simp add: emit_def)

lemma on_data_calls_append: "on_data_calls (xs @ ys) = on_data_calls xs @ on_data_calls ys"
  by (induction xs rule: on_data_calls.induct) simp_all

lemma on_data_calls_map: "on_data_calls (map (EvOnDataChunk i) cs) = cs"
  by (induction cs) simp_all

lemma on_data_calls_map_comp: "on_data_calls (map (EvOnDataChunk i \<circ> f) xs) = map f xs"
  by (induction xs) simp_all

lemma on_headers_calls_append:
  "on_headers_calls (xs @ ys) = on_headers_calls xs @ on_headers_calls ys"
  by (induction xs rule: on_headers_calls.induct) simp_all

lemma world1_stream: "FindStream world1 1 = Some 0 \<and> heap world1 0 = Some stream1"
  by (simp add: FindStream_def world1_def world0_def)

section \<open>Lists of pooled nodes\<close>

text \<open>
  A fresh address is not in the store; a list of nodes depends only on its own nodes;
  linking a node with a null \<^verbatim>\<open>next\<close> pointer behind the tail gives the list with
  that node at its end; and taking a node from a pool that holds nodes as they were
  constructed and linking it keeps list and pool in order.
\<close>

lemma fresh_addr_less: "\<forall>k\<in>fst ` set st. k < fresh_addr st"
  by (induction st) (auto simp: fresh_addr_def less_max_iff_disj)

lemma fresh_addr_new: "map_of st (fresh_addr st) = None"
  using fresh_addr_less [of st] by (auto simp: map_of_eq_None_iff)

lemma chain_cong:
  "(\<And>b. b \<in> fst ` set as \<Longrightarrow> map_of st' b = map_of st b) \<Longrightarrow> chain st' h as = chain st h as"
  by (induction as arbitrary: h) (auto split: option.splits)

lemma chain_in_store: "chain st h as \<Longrightarrow> b \<in> fst ` set as \<Longrightarrow> map_of st b \<noteq> None"
  by (induction as arbitrary: h) (auto split: option.splits)

lemma chain_link:
  "chain st h as \<Longrightarrow> as \<noteq> [] \<Longrightarrow> distinct (map fst as) \<Longrightarrow> a \<notin> fst ` set as \<Longrightarrow>
   map_of st (fst (last as)) = Some tn \<Longrightarrow> map_of st a = Some n \<Longrightarrow> next_node n = None \<Longrightarrow>
   chain (AList.update (fst (last as)) (tn\<lparr>next_node := Some a\<rparr>) st) h (as @ [(a, item n)])"
proof (induction as arbitrary: h)
  case Nil
  then show ?case by simp
next
  case (Cons x rest)
  show ?case
  proof (cases "rest = []")
    case True
    with Cons.prems show ?thesis
      by (auto simp: update_conv' split: option.splits)
  next
    case False
    with Cons.prems have ne: "fst (last rest) \<noteq> fst x"
      by (metis distinct.simps(2) image_eqI last_in_set list.simps(9) list.set_map)
    from Cons.prems obtain node where node: "map_of st (fst x) = Some node"
      "item node = snd x" "chain st (next_node node) rest" "h = Some (fst x)"
      by (auto split: option.splits)
    from Cons.IH [OF node(3) False] Cons.prems False
    have "chain (AList.update (fst (last rest)) (tn\<lparr>next_node := Some a\<rparr>) st)
            (next_node node) (rest @ [(a, item n)])"
      by auto
    with node ne False show ?thesis
      by (auto simp: update_conv')
  qed
qed

lemma list_add_ok:
  assumes ok: "list_ok st pool h t as"
    and pop: "freelist_pop blank st pool = (a, st1, pool1)"
  shows "\<exists>n st2 h2. map_of st1 a = Some n \<and>
     LINKED_LIST_ADD (AList.update a (n\<lparr>item := x\<rparr>) st1) h t a = Inr (st2, h2, Some a) \<and>
     list_ok st2 pool1 h2 (Some a) (as @ [(a, x)])"
proof -
  from ok have ch: "chain st h as" and dist: "distinct (map fst as)"
    and t: "t = (if as = [] then None else Some (fst (last as)))"
    and disj: "\<forall>b\<in>set pool. b \<notin> fst ` set as"
    and dpool: "distinct pool"
    and clean: "\<forall>b\<in>set pool. \<exists>node. map_of st b = Some node \<and> next_node node = None"
    by (auto simp: list_ok_def pool_clean_def list_all_iff split: option.splits)
  have "\<exists>n. map_of st1 a = Some n \<and> next_node n = None \<and> a \<notin> fst ` set as \<and>
          (\<forall>b. b \<noteq> a \<longrightarrow> map_of st1 b = map_of st b) \<and> a \<notin> set pool1 \<and> set pool1 \<subseteq> set pool \<and>
          distinct pool1"
  proof (cases pool)
    case Nil
    with pop have a: "a = fresh_addr st" "st1 = AList.update a \<lparr>item = blank, next_node = None\<rparr> st"
      "pool1 = []"
      by (auto simp: freelist_pop_def)
    have "a \<notin> fst ` set as"
      using chain_in_store [OF ch, of a] fresh_addr_new [of st] a(1) by auto
    with a show ?thesis by (auto simp: update_conv')
  next
    case (Cons b rest)
    with pop have "a = b" "st1 = st" "pool1 = rest"
      by (auto simp: freelist_pop_def)
    with Cons disj dpool clean show ?thesis by auto
  qed
  then obtain n where n: "map_of st1 a = Some n" "next_node n = None" "a \<notin> fst ` set as"
    and same: "\<And>b. b \<noteq> a \<Longrightarrow> map_of st1 b = map_of st b"
    and p1: "a \<notin> set pool1" "set pool1 \<subseteq> set pool" "distinct pool1"
    by blast
  let ?n = "n\<lparr>item := x\<rparr>"
  let ?st = "AList.update a ?n st1"
  have "\<And>b. b \<in> fst ` set as \<Longrightarrow> map_of ?st b = map_of st b"
    using n(3) same by (auto simp: update_conv')
  from chain_cong [OF this] ch have ch1: "chain ?st h as"
    by simp
  have clean1: "\<forall>b\<in>set pool1. \<exists>node. map_of ?st b = Some node \<and> next_node node = None"
    using p1 clean same by (auto simp: update_conv')
  show ?thesis
  proof (cases "as = []")
    case True
    with t ch n clean1 p1 show ?thesis
      by (auto simp: LINKED_LIST_ADD_def list_ok_def pool_clean_def list_all_iff update_conv')
  next
    case False
    let ?t = "fst (last as)"
    from False have tin: "?t \<in> fst ` set as" by simp
    with chain_in_store [OF ch1] obtain tn where tn: "map_of ?st ?t = Some tn" by blast
    have an: "map_of ?st a = Some ?n" by (simp add: update_conv')
    have "chain (AList.update ?t (tn\<lparr>next_node := Some a\<rparr>) ?st) h (as @ [(a, item ?n)])"
      using chain_link [OF ch1 False dist n(3) tn an] n(2) by simp
    moreover have "\<forall>b\<in>set pool1. \<exists>node. map_of (AList.update ?t (tn\<lparr>next_node := Some a\<rparr>) ?st) b
        = Some node \<and> next_node node = None"
      using clean1 p1 disj tin by (auto simp: update_conv')
    ultimately show ?thesis
      using False t n tn p1 dist disj
      by (auto simp: LINKED_LIST_ADD_def list_ok_def pool_clean_def list_all_iff
          split: option.splits)
  qed
qed

text \<open>
  Releasing a node leaves the other nodes as they are, so a walk from the head of a
  list in order visits its nodes one after the other, whatever the pool does with the
  nodes behind it.
\<close>

lemma push_keeps: "b \<noteq> a \<Longrightarrow> map_of (fst (freelist_push a st pool)) b = map_of st b"
  by (simp add: freelist_push_def)

lemma chain_push:
  assumes "chain st h as" and "a \<notin> fst ` set as"
  shows "chain (fst (freelist_push a st pool)) h as"
proof -
  have "\<And>b. b \<in> fst ` set as \<Longrightarrow> map_of (fst (freelist_push a st pool)) b = map_of st b"
    using assms(2) by (intro push_keeps) auto
  from chain_cong [OF this] assms(1) show ?thesis by simp
qed

lemma chain_length: "chain st h as \<Longrightarrow> distinct (map fst as) \<Longrightarrow> length as \<le> length st"
proof -
  assume c: "chain st h as" and d: "distinct (map fst as)"
  have "fst ` set as \<subseteq> fst ` set st"
    using chain_in_store [OF c] by (auto simp: map_of_eq_None_iff)
  then have "card (fst ` set as) \<le> card (fst ` set st)"
    by (simp add: card_mono)
  moreover have "card (fst ` set as) = length as"
    using d distinct_card [of "map fst as"] by simp
  moreover have "card (fst ` set st) \<le> length st"
    using card_length [of "map fst st"] by simp
  ultimately show ?thesis by simp
qed

lemma list_items_chain: "chain st h as \<Longrightarrow> length as \<le> n \<Longrightarrow> list_items n st h = map snd as"
proof (induction as arbitrary: h n)
  case Nil
  then show ?case by (cases n) simp_all
next
  case (Cons x rest)
  then obtain m where "n = Suc m" by (cases n) auto
  with Cons show ?case by (auto split: option.splits)
qed

lemma HandleDataFrame_loop_chain:
  "chain st h as \<Longrightarrow> distinct (map fst as) \<Longrightarrow>
     \<exists>st' pool'. HandleDataFrame_loop i h st pool tr =
       Inr (st', pool', tr @ map (EvOnDataChunk i) (map snd as))"
proof (induction as arbitrary: h st pool tr)
  case Nil
  then show ?case by (subst HandleDataFrame_loop.simps) simp
next
  case (Cons x rest)
  from Cons.prems obtain node where node: "h = Some (fst x)" "map_of st (fst x) = Some node"
    "item node = snd x" "chain st (next_node node) rest"
    by (auto split: option.splits)
  from Cons.prems have "fst x \<notin> fst ` set rest" "distinct (map fst rest)" by auto
  note rest = Cons.IH [OF chain_push [OF node(4) this(1), of pool] this(2)]
  have "HandleDataFrame_loop i h st pool tr =
      HandleDataFrame_loop i (next_node node) (fst (freelist_push (fst x) st pool))
        (snd (freelist_push (fst x) st pool)) (tr @ [EvOnDataChunk i (snd x)])"
    using node by (subst HandleDataFrame_loop.simps) simp
  with rest [of "snd (freelist_push (fst x) st pool)" "tr @ [EvOnDataChunk i (snd x)]"]
  show ?case by simp
qed

lemma FreeHeaders_loop_chain:
  "chain st h as \<Longrightarrow> distinct (map fst as) \<Longrightarrow>
     \<exists>st' pool'. FreeHeaders_loop h st pool tr =
       Inr (st', pool', tr @ map (\<lambda>x. EvRcbufDecref (snd (snd x))) as)"
proof (induction as arbitrary: h st pool tr)
  case Nil
  then show ?case by (subst FreeHeaders_loop.simps) simp
next
  case (Cons x rest)
  from Cons.prems obtain node where node: "h = Some (fst x)" "map_of st (fst x) = Some node"
    "item node = snd x" "chain st (next_node node) rest"
    by (auto split: option.splits)
  from Cons.prems have "fst x \<notin> fst ` set rest" "distinct (map fst rest)" by auto
  note rest = Cons.IH [OF chain_push [OF node(4) this(1), of pool] this(2)]
  have "FreeHeaders_loop h st pool tr =
      FreeHeaders_loop (next_node node) (fst (freelist_push (fst x) st pool))
        (snd (freelist_push (fst x) st pool)) (tr @ [EvRcbufDecref (snd (snd x))])"
    using node by (subst FreeHeaders_loop.simps) simp
  with rest [of "snd (freelist_push (fst x) st pool)" "tr @ [EvRcbufDecref (snd (snd x))]"]
  show ?case by simp
qed

lemma pool_clean_push:
  assumes "pool_clean st pool" and "a \<notin> set pool" and "map_of st a = Some n"
    and "next_node n = None"
  shows "pool_clean (fst (freelist_push a st pool)) (snd (freelist_push a st pool))"
proof (cases "length pool < FREELIST_MAX")
  case True
  with assms show ?thesis
    by (auto simp: pool_clean_def freelist_push_def list_all_iff)
next
  case False
  from assms(2) have "\<forall>b\<in>set pool. b \<noteq> a" by auto
  with False assms(1) show ?thesis
    by (auto simp: pool_clean_def freelist_push_def list_all_iff)
qed

section \<open>Inbound data\<close>

lemma data_chunk_callbacks_ok:
  "FindStream w i = Some p \<Longrightarrow> heap w p = Some s \<Longrightarrow>
   list_ok (chunk_store w) (data_chunk_free_list w) (data_chunks_head s) (data_chunks_tail s) as \<Longrightarrow>
     \<exists>w' s' bs. data_chunk_callbacks i cs w = Inr w' \<and> heap w' p = Some s' \<and>
       sid s' = sid s \<and> FindStream w' i = Some p \<and> trace w' = trace w \<and> map snd bs = cs \<and>
       list_ok (chunk_store w') (data_chunk_free_list w') (data_chunks_head s')
         (data_chunks_tail s') (as @ bs)"
proof (induction cs arbitrary: w s as)
  case Nil
  then show ?case by simp
next
  case (Cons c cs)
  obtain a st1 pool1 where pop:
    "freelist_pop [] (chunk_store w) (data_chunk_free_list w) = (a, st1, pool1)"
    by (cases "freelist_pop [] (chunk_store w) (data_chunk_free_list w)") auto
  from list_add_ok [OF Cons.prems(3) pop, of c] obtain n st2 h2 where
    n: "map_of st1 a = Some n"
    and add: "LINKED_LIST_ADD (AList.update a (n\<lparr>item := c\<rparr>) st1) (data_chunks_head s)
                (data_chunks_tail s) a = Inr (st2, h2, Some a)"
    and ok: "list_ok st2 pool1 h2 (Some a) (as @ [(a, c)])"
    by blast
  let ?s1 = "s\<lparr>data_chunks_head := h2, data_chunks_tail := Some a\<rparr>"
  let ?w1 = "w\<lparr>heap := (heap w)(p \<mapsto> ?s1), chunk_store := st2, data_chunk_free_list := pool1\<rparr>"
  have step: "OnDataChunkReceived i c w = Inr (0, ?w1)"
    using Cons.prems(1,2) pop n add by (simp add: OnDataChunkReceived_def)
  have "FindStream ?w1 i = Some p" "heap ?w1 p = Some ?s1"
    "list_ok (chunk_store ?w1) (data_chunk_free_list ?w1) (data_chunks_head ?s1)
       (data_chunks_tail ?s1) (as @ [(a, c)])"
    using Cons.prems ok by (simp_all add: FindStream_def)
  from Cons.IH [OF this] obtain w' s' bs where
    "data_chunk_callbacks i cs ?w1 = Inr w'" "heap w' p = Some s'" "sid s' = sid s"
    "FindStream w' i = Some p" "trace w' = trace w" "map snd bs = cs"
    "list_ok (chunk_store w') (data_chunk_free_list w') (data_chunks_head s')
       (data_chunks_tail s') ((as @ [(a, c)]) @ bs)"
    by auto
  with step show ?case
    by (intro exI [of _ w'] exI [of _ s'] exI [of _ "(a, c) # bs"]) simp
qed

text \<open>
  A DATA frame that arrives in one chunk leaves the pool as the next frame needs it.
\<close>

lemma single_chunk_keeps_pool:
  assumes "hd_type frame = NGHTTP2_DATA"
    and "FindStream w (hd_stream_id frame) = Some p"
    and "heap w p = Some s"
    and "list_ok (chunk_store w) (data_chunk_free_list w) (data_chunks_head s)
           (data_chunks_tail s) []"
  shows "\<exists>w' s'. data_frame_received frame [c] w = Inr w' \<and> heap w' p = Some s' \<and>
           FindStream w' (hd_stream_id frame) = Some p \<and>
           list_ok (chunk_store w') (data_chunk_free_list w') (data_chunks_head s')
             (data_chunks_tail s') []"
proof -
  from data_chunk_callbacks_ok [OF assms(2,3,4), of "[c]"]
  obtain w1 s1 bs where all: "data_chunk_callbacks (hd_stream_id frame) [c] w = Inr w1 \<and>
      heap w1 p = Some s1 \<and> sid s1 = sid s \<and> FindStream w1 (hd_stream_id frame) = Some p \<and>
      trace w1 = trace w \<and> map snd bs = [c] \<and>
      list_ok (chunk_store w1) (data_chunk_free_list w1) (data_chunks_head s1)
        (data_chunks_tail s1) ([] @ bs)"
    by (elim exE) (rule that)
  then have w1: "data_chunk_callbacks (hd_stream_id frame) [c] w = Inr w1"
    "heap w1 p = Some s1" "FindStream w1 (hd_stream_id frame) = Some p" "map snd bs = [c]"
    and ok: "list_ok (chunk_store w1) (data_chunk_free_list w1) (data_chunks_head s1)
       (data_chunks_tail s1) bs"
    by (simp_all del: data_chunk_callbacks.simps)
  from w1(4) obtain a where bs: "bs = [(a, c)]" by (cases bs) auto
  from ok bs obtain n where n: "data_chunks_head s1 = Some a" "map_of (chunk_store w1) a = Some n"
    "next_node n = None" "a \<notin> set (data_chunk_free_list w1)"
    "pool_clean (chunk_store w1) (data_chunk_free_list w1)"
    by (auto simp: list_ok_def list_all_iff split: option.splits)
  let ?st = "fst (freelist_push a (chunk_store w1) (data_chunk_free_list w1))"
  let ?pool = "snd (freelist_push a (chunk_store w1) (data_chunk_free_list w1))"
  have "HandleDataFrame_loop (sid s1) (data_chunks_head s1) (chunk_store w1)
      (data_chunk_free_list w1) (trace w1) =
      Inr (?st, ?pool, trace w1 @ [EvOnDataChunk (sid s1) (item n)])"
    using n(1,2,3) by (simp add: HandleDataFrame_loop.simps)
  moreover have "pool_clean ?st ?pool"
    using pool_clean_push [OF n(5,4,2,3)] .
  ultimately show ?thesis
    using w1 assms(1)
    by (simp add: data_frame_received_def OnFrameReceive_def HandleDataFrame_def
        list_ok_def list_all_iff FindStream_def)
qed

text \<open>
  C1, as the code has it. A DATA frame completes on a registered stream whose inbound
  queue is a list in order beside its pool: the queue holds the chunks \<open>map snd as\<close>,
  and every node in the pool has a null \<^verbatim>\<open>next\<close> pointer. Then the frame-complete
  handler calls \<^verbatim>\<open>OnDataChunk\<close> once for every chunk buffered on the stream, in the
  order of receipt and each time with that chunk's bytes alone: a frame that arrived in
  the chunks \<open>cs\<close> gives one call per element of \<open>cs\<close> (after the chunks that were
  already buffered, if any). The bytes delivered are the bytes received, in order, and
  the inbound queue is empty afterwards. The pool is as the condition asks when it is
  empty and as long as the frames before arrived in one chunk each; the statement says
  nothing about a pool that holds a node with a \<^verbatim>\<open>next\<close> pointer left over.
\<close>

theorem HandleDataFrame_per_chunk:
  assumes "hd_type frame = NGHTTP2_DATA"
    and "FindStream w (hd_stream_id frame) = Some p"
    and "heap w p = Some s"
    and "list_ok (chunk_store w) (data_chunk_free_list w) (data_chunks_head s)
           (data_chunks_tail s) as"
  shows "\<exists>w' s'. data_frame_received frame cs w = Inr w' \<and>
           trace w' = trace w @ map (EvOnDataChunk (sid s)) (map snd as @ cs) \<and>
           on_data_calls (trace w') = on_data_calls (trace w) @ map snd as @ cs \<and>
           heap w' p = Some s' \<and> data_chunks_head s' = None \<and> data_chunks_tail s' = None"
proof -
  obtain w1 s1 bs where w1: "data_chunk_callbacks (hd_stream_id frame) cs w = Inr w1"
    "heap w1 p = Some s1" "sid s1 = sid s"
    "FindStream w1 (hd_stream_id frame) = Some p" "trace w1 = trace w" "map snd bs = cs"
    and ok: "list_ok (chunk_store w1) (data_chunk_free_list w1) (data_chunks_head s1)
       (data_chunks_tail s1) (as @ bs)"
    using data_chunk_callbacks_ok [OF assms(2,3,4)] by blast
  from ok have "chain (chunk_store w1) (data_chunks_head s1) (as @ bs)"
    "distinct (map fst (as @ bs))"
    by (simp_all add: list_ok_def)
  from HandleDataFrame_loop_chain [OF this]
  obtain st' pool' where "HandleDataFrame_loop (sid s1) (data_chunks_head s1) (chunk_store w1)
      (data_chunk_free_list w1) (trace w1) =
      Inr (st', pool', trace w1 @ map (EvOnDataChunk (sid s1)) (map snd (as @ bs)))"
    by blast
  with w1 assms(1) show ?thesis
    by (simp add: data_frame_received_def OnFrameReceive_def HandleDataFrame_def
        on_data_calls_append on_data_calls_map on_data_calls_map_comp)
qed

theorem HandleDataFrame_per_chunk_witness:
  "\<exists>w' s'. data_frame_received (frame_of NGHTTP2_DATA 1) [[1, 2, 3, 4, 5, 6], [7, 8, 9, 10]] world1 = Inr w' \<and>
     trace w' = [EvOnDataChunk 1 [1, 2, 3, 4, 5, 6], EvOnDataChunk 1 [7, 8, 9, 10]] \<and>
     on_data_calls (trace w') = [[1, 2, 3, 4, 5, 6], [7, 8, 9, 10]] \<and>
     heap w' 0 = Some s' \<and> data_chunks_head s' = None \<and> data_chunks_tail s' = None"
proof -
  have "hd_type (frame_of NGHTTP2_DATA 1) = NGHTTP2_DATA"
    and "FindStream world1 (hd_stream_id (frame_of NGHTTP2_DATA 1)) = Some 0"
    and "heap world1 0 = Some stream1"
    and "list_ok (chunk_store world1) (data_chunk_free_list world1) (data_chunks_head stream1)
           (data_chunks_tail stream1) []"
    using world1_stream
    by (simp_all add: frame_of_def list_ok_def pool_clean_def stream1_def ResetState_def
        world1_def world0_def)
  from HandleDataFrame_per_chunk [OF this, of "[[1, 2, 3, 4, 5, 6], [7, 8, 9, 10]]"]
  show ?thesis
    by (simp add: stream1_def ResetState_def world1_def world0_def)
qed

text \<open>
  C1, as it is stated, fails: a 10-byte DATA frame on stream 1 that arrives as 6 and then
  4 bytes gives two calls of the data handler, with 6 and with 4 bytes, and not one call
  with the aggregate of 10 bytes.
\<close>

theorem HandleDataFrame_aggregate_counterexample:
  "on_data_calls (trace_of (data_frame_received (frame_of NGHTTP2_DATA 1)
       [[1, 2, 3, 4, 5, 6], [7, 8, 9, 10]] world1))
     = [[1, 2, 3, 4, 5, 6], [7, 8, 9, 10]] \<and>
   on_data_calls (trace_of (data_frame_received (frame_of NGHTTP2_DATA 1)
       [[1, 2, 3, 4, 5, 6], [7, 8, 9, 10]] world1))
     \<noteq> [[1, 2, 3, 4, 5, 6, 7, 8, 9, 10]]"
  by (simp add: data_frame_received_def OnDataChunkReceived_def OnFrameReceive_def
      HandleDataFrame_def HandleDataFrame_loop.simps FindStream_def trace_of_def frame_of_def
      freelist_pop_def freelist_push_def fresh_addr_def LINKED_LIST_ADD_def FREELIST_MAX_def
      world1_def world0_def stream1_def ResetState_def)

text \<open>
  The two nodes of that frame go back to the pool with the first still pointing at the
  second. A next frame of one chunk gets the first node, and the walk of the
  frame-complete handler goes on from it to the second: the chunk \<open>[7, 8, 9, 10]\<close> of
  the frame before, whose bytes have been freed, is handed out a second time.
\<close>

lemma HandleDataFrame_stale_chunk:
  "on_data_calls (trace_of (data_frames
       [(frame_of NGHTTP2_DATA 1, [[1, 2, 3, 4, 5, 6], [7, 8, 9, 10]]),
        (frame_of NGHTTP2_DATA 1, [[11]])] world1))
     = [[1, 2, 3, 4, 5, 6], [7, 8, 9, 10], [11], [7, 8, 9, 10]]"
  by (simp add: data_frame_received_def OnDataChunkReceived_def OnFrameReceive_def
      HandleDataFrame_def HandleDataFrame_loop.simps FindStream_def trace_of_def frame_of_def
      freelist_pop_def freelist_push_def fresh_addr_def LINKED_LIST_ADD_def FREELIST_MAX_def
      world1_def world0_def stream1_def ResetState_def)

section \<open>Unknown streams\<close>

text \<open>
  C10. When the engine reports the close of a stream whose id has no entry in the
  registry, \<^verbatim>\<open>OnStreamClose\<close> returns 0 and leaves the state as it is: the external
  consumer is not notified and nothing aborts. The frame-complete handlers for DATA and
  for HEADERS or PUSH_PROMISE abort on the same id through \<^verbatim>\<open>CHECK_NE\<close>.
\<close>

theorem OnStreamClose_unknown_stream:
  "FindStream w i = None \<Longrightarrow>
     OnStreamClose i c w = Inr (0, w) \<and>
     (hd_stream_id frame = i \<longrightarrow> HandleDataFrame frame w = Inl CheckFailed) \<and>
     (frame_id frame = i \<longrightarrow> HandleHeadersFrame frame w = Inl CheckFailed)"
  by (simp add: OnStreamClose_def HandleDataFrame_def HandleHeadersFrame_def)

theorem OnStreamClose_unknown_stream_witness:
  "FindStream world1 7 = None \<and>
   OnStreamClose 7 8 world1 = Inr (0, world1) \<and>
   HandleDataFrame (frame_of NGHTTP2_DATA 7) world1 = Inl CheckFailed \<and>
   HandleHeadersFrame (frame_of NGHTTP2_DATA 7) world1 = Inl CheckFailed"
proof -
  have h: "FindStream world1 7 = None"
    by (simp add: FindStream_def world1_def world0_def)
  from OnStreamClose_unknown_stream [OF h, of 8 "frame_of NGHTTP2_DATA 7"] h
  show ?thesis by (simp add: frame_of_def frame_id_def)
qed

section \<open>Stream write on a stream that is not writable\<close>

text \<open>
  C4. A write on a stream that is not writable returns 0 within the call; if a
  completion callback was supplied it has been called, once, with \<^verbatim>\<open>UV_EOF\<close>, and
  that call is the only thing that happened: the write queue and every other part of the
  state are as before, so no request was appended, the engine was not told to resume the
  stream and nothing reached the session.
\<close>

theorem Write_not_writable:
  "heap w p = Some s \<Longrightarrow> \<not> IsWritable s \<Longrightarrow>
     Nghttp2Stream_Write p r bs c w =
       Inr (0, emit (case c of None \<Rightarrow> [] | Some f \<Rightarrow> [EvWriteCb f r UV_EOF]) w)"
  by (simp add: Nghttp2Stream_Write_def emit_Nil split: option.split)

theorem Write_not_writable_witness:
  "\<not> IsWritable (stream1\<lparr>flags := {NGHTTP2_STREAM_FLAG_SHUT}\<rparr>) \<and>
   Nghttp2Stream_Write 0 5 [[1, 2, 3]] (Some 9) world1_shut =
     Inr (0, world1_shut\<lparr>trace := [EvWriteCb 9 5 UV_EOF]\<rparr>) \<and>
   Nghttp2Stream_Write 0 5 [[1, 2, 3]] None world1_shut = Inr (0, world1_shut)"
proof -
  have h: "heap world1_shut 0 = Some (stream1\<lparr>flags := {NGHTTP2_STREAM_FLAG_SHUT}\<rparr>)"
    and n: "\<not> IsWritable (stream1\<lparr>flags := {NGHTTP2_STREAM_FLAG_SHUT}\<rparr>)"
    and t: "trace world1_shut = []"
    by (simp_all add: world1_shut_def world1_def world0_def IsWritable_def)
  from Write_not_writable [OF h n, of 5 "[[1, 2, 3]]" "Some 9"]
       Write_not_writable [OF h n, of 5 "[[1, 2, 3]]" None] n t
  show ?thesis by (simp add: emit_def)
qed

section \<open>Pausing the inbound flow\<close>

text \<open>
  C8. On a stream that is not reading (reading never started, or already paused)
  \<^verbatim>\<open>ReadStop\<close> changes nothing. On a stream of a session that is reading, the first
  \<^verbatim>\<open>ReadStop\<close> saves the local window the engine reports (when it is not negative) and
  sets the window to 0; a second \<^verbatim>\<open>ReadStop\<close> right after it changes nothing, so the
  window is still 0 and the saved window is the one the first call took, not the 0 that
  the engine reports by then.
\<close>

theorem ReadStop_twice:
  "heap w p = Some s \<Longrightarrow>
     (\<not> IsReading s \<longrightarrow> ReadStop p w = Inr w) \<and>
     (IsReading s \<and> session s \<longrightarrow>
        (\<exists>w1 s1. ReadStop p w = Inr w1 \<and> ReadStop p w1 = Inr w1 \<and>
           heap w1 p = Some s1 \<and>
           nghttp2_session_get_stream_local_window_size w1 (sid s) = 0 \<and>
           prev_local_window_size s1 =
             (if 0 \<le> sint (nghttp2_session_get_stream_local_window_size w (sid s))
              then nghttp2_session_get_stream_local_window_size w (sid s)
              else prev_local_window_size s)))"
  by (auto simp: ReadStop_def Let_def IsReading_def
      nghttp2_session_get_stream_local_window_size_def
      nghttp2_session_set_local_window_size_def)

theorem ReadStop_twice_witness:
  "IsReading (stream1\<lparr>flags := {NGHTTP2_STREAM_READ_START}\<rparr>) \<and>
   session (stream1\<lparr>flags := {NGHTTP2_STREAM_READ_START}\<rparr>) \<and>
   (\<exists>w1 s1. ReadStop 0 world1_reading = Inr w1 \<and> ReadStop 0 w1 = Inr w1 \<and>
      heap w1 0 = Some s1 \<and>
      nghttp2_session_get_stream_local_window_size w1 1 = 0 \<and>
      prev_local_window_size s1 = 1000) \<and>
   \<not> IsReading stream1 \<and> ReadStop 0 world1 = Inr world1"
proof -
  let ?s = "stream1\<lparr>flags := {NGHTTP2_STREAM_READ_START}\<rparr>"
  have h: "heap world1_reading 0 = Some ?s"
    by (simp add: world1_reading_def)
  have r: "IsReading ?s" "session ?s" "sid ?s = 1"
    by (simp_all add: IsReading_def stream1_def ResetState_def)
  have g: "nghttp2_session_get_stream_local_window_size world1_reading 1 = 1000"
    by (simp add: nghttp2_session_get_stream_local_window_size_def world1_reading_def)
  have h1: "heap world1 0 = Some stream1" and n1: "\<not> IsReading stream1"
    by (simp_all add: world1_def IsReading_def stream1_def ResetState_def)
  from ReadStop_twice [OF h] ReadStop_twice [OF h1] r g n1
  show ?thesis by simp
qed

section \<open>Destroying a stream twice\<close>

text \<open>
  C9. After a first \<^verbatim>\<open>Destroy\<close> of a stream object, the object carries the flag
  that says it is being destroyed, and a second \<^verbatim>\<open>Destroy\<close> of the same object
  returns at once and leaves the whole state as it is: the registry, the buffered data
  and headers, the pools and the trace are those the first call left. The same holds at
  any later time, in any state in which the object is as the first call left it. The
  object is the one the first call released; the pool keeps it whenever it has room, and
  the call is made on an object that still exists.
\<close>

theorem Destroy_twice:
  "Destroy p w = Inr w' \<Longrightarrow>
     (length (stream_free_list w) < FREELIST_MAX \<longrightarrow> heap w' p \<noteq> None) \<and>
     (\<forall>s'. heap w' p = Some s' \<longrightarrow>
        (IsDestroying s' \<or> IsDestroyed s') \<and> Destroy p w' = Inr w' \<and>
        (\<forall>w2. heap w2 p = Some s' \<longrightarrow> Destroy p w2 = Inr w2))"
  by (auto simp: Destroy_def Let_def IsDestroying_def IsDestroyed_def FreeHeaders_def
      stream_free_list_push_def RemoveStream_def
      split: option.splits if_splits sum.splits prod.splits)

theorem Destroy_twice_witness:
  "\<exists>w' s'. Destroy 0 world1_buffered = Inr w' \<and>
     length (stream_free_list world1_buffered) < FREELIST_MAX \<and>
     heap w' 0 = Some s' \<and> IsDestroying s' \<and> data_chunks_head s' = None \<and>
     current_headers_head s' = None \<and> FindStream w' 1 = None \<and> stream_free_list w' = [0] \<and>
     data_chunk_free_list w' = [1, 2] \<and> header_free_list w' = [1] \<and>
     Destroy 0 w' = Inr w'"
proof -
  obtain w' s' where d: "Destroy 0 world1_buffered = Inr w'"
    and f: "heap w' 0 = Some s'" "IsDestroying s'" "data_chunks_head s' = None"
      "current_headers_head s' = None" "FindStream w' 1 = None" "stream_free_list w' = [0]"
      "data_chunk_free_list w' = [1, 2]" "header_free_list w' = [1]"
    by (simp add: Destroy_def Let_def IsDestroying_def IsDestroyed_def FreeHeaders_def
        Destroy_chunks.simps FreeHeaders_loop.simps freelist_push_def
        stream_free_list_push_def RemoveStream_def FindStream_def FREELIST_MAX_def
        world1_buffered_def world1_def world0_def stream1_def ResetState_def)
  have l: "length (stream_free_list world1_buffered) < FREELIST_MAX"
    by (simp add: world1_buffered_def world1_def world0_def FREELIST_MAX_def)
  from Destroy_twice [OF d] l d f show ?thesis by simp
qed

section \<open>Inbound headers\<close>

text \<open>
  When the pool of header nodes holds nodes as they were constructed, a header block on
  a stream that is new, or known with no header pending, is handed to the headers
  handler in one call, with the pairs of the block in the order of receipt, and the
  stream's list is empty afterwards.
\<close>

lemma on_headers_calls_decref:
  "on_headers_calls (map (\<lambda>x. EvRcbufDecref (f x)) xs) = []"
  by (induction xs) simp_all

lemma header_callbacks_ok:
  "FindStream w (frame_id frame) = Some p \<Longrightarrow> heap w p = Some s \<Longrightarrow>
   list_ok (header_store w) (header_free_list w) (current_headers_head s)
     (current_headers_tail s) as \<Longrightarrow>
     \<exists>w' s' bs. header_callbacks frame nvs w = Inr w' \<and> heap w' p = Some s' \<and>
       sid s' = sid s \<and> current_headers_category s' = current_headers_category s \<and>
       FindStream w' (frame_id frame) = Some p \<and>
       on_headers_calls (trace w') = on_headers_calls (trace w) \<and> map snd bs = nvs \<and>
       list_ok (header_store w') (header_free_list w') (current_headers_head s')
         (current_headers_tail s') (as @ bs)"
proof (induction nvs arbitrary: w s as)
  case Nil
  then show ?case by simp
next
  case (Cons nv nvs)
  obtain a st1 pool1 where pop:
    "freelist_pop ('''', '''') (header_store w) (header_free_list w) = (a, st1, pool1)"
    by (cases "freelist_pop ('''', '''') (header_store w) (header_free_list w)") auto
  from list_add_ok [OF Cons.prems(3) pop, of nv] obtain n st2 h2 where
    n: "map_of st1 a = Some n"
    and add: "LINKED_LIST_ADD (AList.update a (n\<lparr>item := nv\<rparr>) st1) (current_headers_head s)
                (current_headers_tail s) a = Inr (st2, h2, Some a)"
    and ok: "list_ok st2 pool1 h2 (Some a) (as @ [(a, nv)])"
    by blast
  let ?s1 = "s\<lparr>current_headers_head := h2, current_headers_tail := Some a\<rparr>"
  let ?w1 = "w\<lparr>heap := (heap w)(p \<mapsto> ?s1), header_store := st2, header_free_list := pool1,
               trace := trace w @ [EvRcbufIncref (fst nv), EvRcbufIncref (snd nv)]\<rparr>"
  have step: "OnHeaderCallback frame (fst nv) (snd nv) w = Inr (0, ?w1)"
    using Cons.prems(1,2) pop n add by (simp add: OnHeaderCallback_def)
  have "FindStream ?w1 (frame_id frame) = Some p" "heap ?w1 p = Some ?s1"
    "list_ok (header_store ?w1) (header_free_list ?w1) (current_headers_head ?s1)
       (current_headers_tail ?s1) (as @ [(a, nv)])"
    using Cons.prems ok by (simp_all add: FindStream_def)
  from Cons.IH [OF this] obtain w' s' bs where
    "header_callbacks frame nvs ?w1 = Inr w'" "heap w' p = Some s'" "sid s' = sid s"
    "current_headers_category s' = current_headers_category s"
    "FindStream w' (frame_id frame) = Some p"
    "on_headers_calls (trace w') = on_headers_calls (trace w)" "map snd bs = nvs"
    "list_ok (header_store w') (header_free_list w') (current_headers_head s')
       (current_headers_tail s') ((as @ [(a, nv)]) @ bs)"
    by (auto simp: on_headers_calls_append)
  with step show ?case
    by (intro exI [of _ w'] exI [of _ s'] exI [of _ "(a, nv) # bs"]) simp
qed

lemma OnBeginHeadersCallback_ok:
  assumes "\<forall>p. FindStream w (frame_id frame) = Some p \<longrightarrow>
             (\<exists>s. heap w p = Some s \<and> current_headers_head s = None \<and>
                  current_headers_tail s = None)"
  shows "\<exists>w1 p s1. OnBeginHeadersCallback frame w = Inr (0, w1) \<and>
           FindStream w1 (frame_id frame) = Some p \<and> heap w1 p = Some s1 \<and>
           current_headers_head s1 = None \<and> current_headers_tail s1 = None \<and>
           header_store w1 = header_store w \<and> header_free_list w1 = header_free_list w \<and>
           trace w1 = trace w"
proof (cases "FindStream w (frame_id frame)")
  case None
  then show ?thesis
    by (simp add: OnBeginHeadersCallback_def Init_def stream_free_list_pop_def AddStream_def
        ResetState_def FindStream_def Let_def split: list.split)
next
  case (Some p)
  with assms obtain s where "heap w p = Some s" "current_headers_head s = None"
    "current_headers_tail s = None" by auto
  with Some show ?thesis
    by (simp add: OnBeginHeadersCallback_def StartHeaders_def FindStream_def)
qed

lemma HandleHeadersFrame_ok:
  assumes "FindStream w (frame_id frame) = Some p" and "heap w p = Some s"
    and "list_ok (header_store w) (header_free_list w) (current_headers_head s)
           (current_headers_tail s) as"
  shows "\<exists>w' s'. HandleHeadersFrame frame w = Inr w' \<and>
           FindStream w' (frame_id frame) = Some p \<and>
           heap w' p = Some (s\<lparr>current_headers_head := None, current_headers_tail := None\<rparr>) \<and>
           on_headers_calls (trace w') = on_headers_calls (trace w) @
             [EvOnHeaders (sid s) (map snd as) (current_headers_category s) (hd_flags frame)]"
proof -
  from assms(3) have c: "chain (header_store w) (current_headers_head s) as"
    and d: "distinct (map fst as)"
    by (simp_all add: list_ok_def)
  have items: "list_items (length (header_store w)) (header_store w) (current_headers_head s)
      = map snd as"
    using list_items_chain [OF c chain_length [OF c d]] .
  let ?tr = "trace w @ [EvOnHeaders (sid s) (map snd as) (current_headers_category s)
                (hd_flags frame)]"
  from FreeHeaders_loop_chain [OF c d, of "header_free_list w" ?tr]
  obtain st' pool' where "FreeHeaders_loop (current_headers_head s) (header_store w)
      (header_free_list w) ?tr = Inr (st', pool', ?tr @ map (\<lambda>x. EvRcbufDecref (snd (snd x))) as)"
    by blast
  with assms(1,2) items show ?thesis
    by (simp add: HandleHeadersFrame_def FreeHeaders_def emit_def FindStream_def
        on_headers_calls_append on_headers_calls_decref)
qed

lemma headers_frame_received_clean_pool:
  assumes "hd_type frame = NGHTTP2_HEADERS \<or> hd_type frame = NGHTTP2_PUSH_PROMISE"
    and "pool_clean (header_store w) (header_free_list w)"
    and "\<forall>p. FindStream w (frame_id frame) = Some p \<longrightarrow>
             (\<exists>s. heap w p = Some s \<and> current_headers_head s = None \<and>
                  current_headers_tail s = None)"
  shows "\<exists>w' p s'. headers_frame_received frame nvs w = Inr w' \<and>
           FindStream w' (frame_id frame) = Some p \<and> heap w' p = Some s' \<and>
           current_headers_head s' = None \<and> current_headers_tail s' = None \<and>
           on_headers_calls (trace w') = on_headers_calls (trace w) @
             [EvOnHeaders (sid s') nvs (current_headers_category s') (hd_flags frame)]"
proof -
  obtain w1 p s1 where b: "OnBeginHeadersCallback frame w = Inr (0, w1)"
    "FindStream w1 (frame_id frame) = Some p" "heap w1 p = Some s1"
    "current_headers_head s1 = None" "current_headers_tail s1 = None"
    "header_store w1 = header_store w" "header_free_list w1 = header_free_list w"
    "trace w1 = trace w"
    using OnBeginHeadersCallback_ok [OF assms(3)] by blast
  have "list_ok (header_store w1) (header_free_list w1) (current_headers_head s1)
          (current_headers_tail s1) []"
    using b assms(2) by (simp add: list_ok_def list_all_iff)
  from header_callbacks_ok [OF b(2,3) this, of nvs]
  obtain w2 s2 bs where h: "header_callbacks frame nvs w1 = Inr w2" "heap w2 p = Some s2"
    "sid s2 = sid s1" "current_headers_category s2 = current_headers_category s1"
    "FindStream w2 (frame_id frame) = Some p"
    "on_headers_calls (trace w2) = on_headers_calls (trace w1)" "map snd bs = nvs"
    "list_ok (header_store w2) (header_free_list w2) (current_headers_head s2)
       (current_headers_tail s2) bs"
    by auto
  from HandleHeadersFrame_ok [OF h(5,2,8)]
  obtain w3 where f: "HandleHeadersFrame frame w2 = Inr w3"
    "FindStream w3 (frame_id frame) = Some p"
    "heap w3 p = Some (s2\<lparr>current_headers_head := None, current_headers_tail := None\<rparr>)"
    "on_headers_calls (trace w3) = on_headers_calls (trace w2) @
       [EvOnHeaders (sid s2) (map snd bs) (current_headers_category s2) (hd_flags frame)]"
    by auto
  have "headers_frame_received frame nvs w = Inr w3"
    using assms(1) b(1) h(1) f(1)
    by (auto simp: headers_frame_received_def OnFrameReceive_def)
  with f b h show ?thesis by simp
qed

text \<open>
  C6 asks that the headers handler is called once with exactly the K pairs of the
  block. At the first two requests of a session it is not so. The session is new: no
  stream and nothing in the pools. A HEADERS frame on stream 1 carries three pairs, then
  a HEADERS frame on stream 3 carries two. For the first block the headers handler gets
  its three pairs. The three nodes go back to the pool linked as they were. The second
  block takes the first two of them, and its second node still points at the third: the
  headers handler is called once for the block of stream 3, with three entries and not
  with two, the third being the pair \<open>accept\<close> of stream 1, whose value lost its
  reference when the first block was released. The list of stream 3 is empty
  afterwards, and the third node is in the pool twice.
\<close>

theorem HandleHeadersFrame_stale_header:
  "(case header_blocks
       [(frame_of NGHTTP2_HEADERS 1, [('':method'', ''GET''), ('':path'', ''/a''), (''accept'', ''*/*'')]),
        (frame_of NGHTTP2_HEADERS 3, [('':method'', ''GET''), ('':path'', ''/b'')])] world0 of
      Inl e \<Rightarrow> False
    | Inr w' \<Rightarrow>
        on_headers_calls (trace w') =
          [EvOnHeaders 1 [('':method'', ''GET''), ('':path'', ''/a''), (''accept'', ''*/*'')]
             NGHTTP2_HCAT_REQUEST 0,
           EvOnHeaders 3 [('':method'', ''GET''), ('':path'', ''/b''), (''accept'', ''*/*'')]
             NGHTTP2_HCAT_REQUEST 0] \<and>
        map_option current_headers_head (heap w' 1) = Some None \<and>
        header_free_list w' = [2, 0, 1, 2])"
  by (simp add: headers_frame_received_def OnBeginHeadersCallback_def Init_def
      stream_free_list_pop_def AddStream_def ResetState_def OnHeaderCallback_def
      OnFrameReceive_def HandleHeadersFrame_def FreeHeaders_def FreeHeaders_loop.simps
      emit_def FindStream_def frame_id_def frame_of_def freelist_pop_def freelist_push_def
      fresh_addr_def LINKED_LIST_ADD_def FREELIST_MAX_def Let_def world0_def)

section \<open>Session write\<close>

lemma SendPendingData_inner_returns:
  "0 < alen \<Longrightarrow>
     \<exists>r. SendPendingData_inner alen data amount offset src_offset current remaining tr = Some r"
proof (induction "2 * amount + (if remaining = 0 then 1 else 0)"
    arbitrary: amount offset src_offset current remaining tr rule: less_induct)
  case less
  show ?case
  proof (cases "0 < amount")
    case False
    then show ?thesis by (subst SendPendingData_inner.simps) simp
  next
    case True
    show ?thesis
    proof (cases "remaining < amount")
      case True
      have "2 * (amount - remaining) + (if length (AllocateSend alen) = 0 then 1 else 0)
              < 2 * amount + (if remaining = 0 then 1 else 0)"
        using True less.prems by (auto simp: AllocateSend_def)
      from less.hyps [OF this less.prems] \<open>0 < amount\<close> True show ?thesis
        by (subst SendPendingData_inner.simps) simp
    next
      case False
      have "2 * 0 + (if remaining - amount = 0 then 1 else 0)
              < 2 * amount + (if remaining = 0 then 1 else 0)"
        using \<open>0 < amount\<close> by auto
      from less.hyps [OF this less.prems] \<open>0 < amount\<close> False show ?thesis
        by (subst SendPendingData_inner.simps) simp
    qed
  qed
qed

lemma SendPendingData_loop_returns:
  "0 < alen \<Longrightarrow>
     \<exists>r. SendPendingData_loop alen cs offset src_offset current remaining tr = Some r"
proof (induction cs arbitrary: offset src_offset current remaining tr)
  case Nil
  then show ?case by simp
next
  case (Cons data cs)
  obtain r where "SendPendingData_inner alen data (length data) offset src_offset current
      remaining tr = Some r"
    using SendPendingData_inner_returns [OF Cons.prems] by blast
  then show ?case
    using Cons.IH [OF Cons.prems] by (cases r) auto
qed

lemma SendPendingData_returns: "0 < send_len w \<Longrightarrow> \<exists>w'. SendPendingData w = Some w'"
proof -
  assume "0 < send_len w"
  from SendPendingData_loop_returns [OF this]
  obtain r where "SendPendingData_loop (send_len w) (engine_out w) 0 0
      (AllocateSend (send_len w)) (length (AllocateSend (send_len w))) [] = Some r"
    by blast
  then show ?thesis
    by (cases r) (simp add: SendPendingData_def Let_def)
qed

lemma unat_sum_list_mod:
  "unat (sum_list (rs :: ssize_t list)) = sum_list (map unat rs) mod 2 ^ 64"
proof (induction rs)
  case Nil
  then show ?case by simp
next
  case (Cons r rs)
  have "unat (r + sum_list rs) = (unat r + unat (sum_list rs)) mod 2 ^ 64"
    by (simp add: unat_word_ariths)
  also have "\<dots> = (unat r + sum_list (map unat rs)) mod 2 ^ 64"
    by (simp add: Cons.IH mod_add_right_eq)
  finally show ?case by simp
qed

lemma sint_sum_list:
  assumes "sum_list (map unat (rs :: ssize_t list)) < 2 ^ 63"
  shows "sint (sum_list rs) = int (sum_list (map unat rs))"
proof -
  have u: "unat (sum_list rs) = sum_list (map unat rs)"
    using assms by (simp add: unat_sum_list_mod)
  have "uint (sum_list rs) = int (unat (sum_list rs))" by simp
  also have "\<dots> = int (sum_list (map unat rs))" using u by simp
  finally have v: "uint (sum_list rs) = int (sum_list (map unat rs))" .
  have "int (sum_list (map unat rs)) < 2 ^ 63"
    using assms by (metis of_nat_less_iff of_nat_numeral of_nat_power)
  then have "signed_take_bit 63 (uint (sum_list rs)) = uint (sum_list rs)"
    using v by (intro signed_take_bit_int_eq_self) simp_all
  then show ?thesis
    using v by (simp add: sint_uint)
qed

lemma Write_loop_feeds:
  "feeds mem_recv bs w = Some (rs, w1) \<Longrightarrow>
     Nghttp2Session_Write_loop mem_recv (bs @ rest) tot w =
       Nghttp2Session_Write_loop mem_recv rest (tot + sum_list rs) w1"
proof (induction bs arbitrary: w tot rs)
  case Nil
  then show ?case by simp
next
  case (Cons b bs)
  then show ?case
    by (auto split: sum.splits prod.splits if_splits option.splits simp: add.assoc)
qed

text \<open>
  C7. The buffers are fed to the engine's parser in order. If all feeds succeed, with
  the consumed counts \<open>rs\<close> and the state \<open>w1\<close> after the last feed, the write flushes the
  send pipeline on \<open>w1\<close> and then returns the sum of \<open>rs\<close>, added in the 64 bits of the
  return type, which is their sum as numbers as long as that is below \<open>2 ^ 63\<close>; the
  flush returns whenever the transport's buffers are not empty. If the feed of
  a buffer \<open>b\<close> fails with the negative code \<open>ret\<close> after the buffers \<open>pre\<close> before it
  succeeded, the write returns \<open>ret\<close> with the state exactly as that feed left it: what
  the earlier buffers changed stays, the buffers \<open>post\<close> after \<open>b\<close> are not fed and
  nothing is flushed.
\<close>

theorem Session_Write_feeds:
  "(feeds mem_recv bs w = Some (rs, w1) \<longrightarrow>
      Nghttp2Session_Write mem_recv bs w =
        (case SendPendingData w1 of None \<Rightarrow> None | Some w2 \<Rightarrow> Some (Inr (sum_list rs, w2))) \<and>
      (0 < send_len w1 \<longrightarrow> SendPendingData w1 \<noteq> None) \<and>
      (sum_list (map unat rs) < 2 ^ 63 \<longrightarrow> sint (sum_list rs) = int (sum_list (map unat rs)))) \<and>
   (feeds mem_recv pre w = Some (rs', w1') \<and> mem_recv b w1' = Inr (ret, w2') \<and> sint ret < 0 \<longrightarrow>
      Nghttp2Session_Write mem_recv (pre @ b # post) w = Some (Inr (ret, w2')))"
proof (intro conjI impI)
  assume f: "feeds mem_recv bs w = Some (rs, w1)"
  from Write_loop_feeds [OF f, of "[]" 0]
  show "Nghttp2Session_Write mem_recv bs w =
        (case SendPendingData w1 of None \<Rightarrow> None | Some w2 \<Rightarrow> Some (Inr (sum_list rs, w2)))"
    by (simp add: Nghttp2Session_Write_def)
next
  assume "0 < send_len w1"
  from SendPendingData_returns [OF this] show "SendPendingData w1 \<noteq> None" by auto
next
  assume "sum_list (map unat rs) < 2 ^ 63"
  then show "sint (sum_list rs) = int (sum_list (map unat rs))" by (rule sint_sum_list)
next
  assume a: "feeds mem_recv pre w = Some (rs', w1') \<and> mem_recv b w1' = Inr (ret, w2') \<and> sint ret < 0"
  from Write_loop_feeds [of mem_recv pre w rs' w1' "b # post" 0] a
  show "Nghttp2Session_Write mem_recv (pre @ b # post) w = Some (Inr (ret, w2'))"
    by (simp add: Nghttp2Session_Write_def)
qed

theorem Session_Write_feeds_witness:
  "feeds echo_recv [[1, 2, 3], [4]] world0 = Some ([3, 1], world0\<lparr>engine_out := [[1, 2, 3], [4]]\<rparr>) \<and>
   0 < send_len (world0\<lparr>engine_out := [[1, 2, 3], [4]]\<rparr>) \<and>
   SendPendingData (world0\<lparr>engine_out := [[1, 2, 3], [4]]\<rparr>) =
     Some (world0\<lparr>trace := [EvSend [1, 2], EvSend [3, 4]]\<rparr>) \<and>
   sum_list (map unat [3, 1 :: ssize_t]) < 2 ^ 63 \<and> sint (sum_list [3, 1 :: ssize_t]) = 4 \<and>
   Nghttp2Session_Write echo_recv [[1, 2, 3], [4]] world0 =
     Some (Inr (4, world0\<lparr>trace := [EvSend [1, 2], EvSend [3, 4]]\<rparr>)) \<and>
   feeds echo_recv [[1, 2, 3]] world0 = Some ([3], world0\<lparr>engine_out := [[1, 2, 3]]\<rparr>) \<and>
   echo_recv [] (world0\<lparr>engine_out := [[1, 2, 3]]\<rparr>) = Inr (- 902, world0\<lparr>engine_out := [[1, 2, 3]]\<rparr>) \<and>
   sint (- 902 :: ssize_t) < 0 \<and>
   Nghttp2Session_Write echo_recv ([[1, 2, 3]] @ [] # [[4]]) world0 =
     Some (Inr (- 902, world0\<lparr>engine_out := [[1, 2, 3]]\<rparr>))"
proof -
  let ?w1 = "world0\<lparr>engine_out := [[1, 2, 3], [4]]\<rparr>"
  let ?w2 = "world0\<lparr>engine_out := [[1, 2, 3]]\<rparr>"
  have f1: "feeds echo_recv [[1, 2, 3], [4]] world0 = Some ([3, 1], ?w1)"
    and f2: "feeds echo_recv [[1, 2, 3]] world0 = Some ([3], ?w2)"
    and e: "echo_recv [] ?w2 = Inr (- 902, ?w2)"
    and n: "sint (- 902 :: ssize_t) < 0"
    and l: "0 < send_len ?w1"
    by (simp_all add: echo_recv_def world0_def)
  have s: "SendPendingData ?w1 = Some (world0\<lparr>trace := [EvSend [1, 2], EvSend [3, 4]]\<rparr>)"
    by (simp add: world0_def SendPendingData_def AllocateSend_def memcpy_def emit_def
        SendPendingData_inner.simps)
  from Session_Write_feeds [of echo_recv "[[1, 2, 3], [4]]" world0 "[3, 1]" ?w1
      "[[1, 2, 3]]" "[3]" ?w2 "[]" "- 902" ?w2 "[[4]]"] f1 f2 e n l s
  show ?thesis by simp
qed

section \<open>The loops of the outbound pull\<close>

lemma replay_append:
  "replay ps (xs @ ys) = (case replay ps xs of None \<Rightarrow> None | Some ps' \<Rightarrow> replay ps' ys)"
  by (induction ps xs rule: replay.induct) (auto split: list.splits)

lemma owed_head_start: "owed_head h 0 0 = concat (bufs h)"
  by (cases "bufs h") (simp_all add: owed_head_def)

lemma pending_start: "pending q 0 0 = map (\<lambda>x. (cb x, req x, concat (bufs x))) q"
  by (cases q) (simp_all add: pending_def owed_head_start)

lemma cursor_in_buffer_start: "cursor_in_buffer q 0 0"
  by (cases q) (simp_all add: cursor_in_buffer_def)

lemma inner_props:
  "OnStreamRead_inner h idx off out rem tr = Inr (at_end, idx', off', out', rem', tr') \<Longrightarrow>
     length out' + rem' = length out + rem \<and>
     (\<exists>new. tr' = tr @ new \<and> (\<forall>e\<in>set new. pull_event e) \<and>
        replay ((c, r, owed_head h idx off) # ps) new = Some ((c, r, owed_head h idx' off') # ps)) \<and>
     (\<not> at_end \<longrightarrow> owed_head h idx' off' = []) \<and>
     (at_end \<longrightarrow> idx' < length (bufs h)) \<and>
     ((idx < length (bufs h) \<longrightarrow> off \<le> length (bufs h ! idx)) \<longrightarrow>
        (idx' < length (bufs h) \<longrightarrow> off' \<le> length (bufs h ! idx')))"
proof (induction h idx off out rem tr rule: OnStreamRead_inner.induct)
  case (1 head idx off out remaining tr)
  show ?case
  proof (cases "idx < length (bufs head)")
    case False
    with "1.prems" show ?thesis
      by (simp add: owed_head_def)
  next
    case in_range: True
    show ?thesis
    proof (cases "remaining = 0")
      case True
      with in_range "1.prems" show ?thesis by simp
    next
      case False
      have inb: "\<not> length (bufs head ! idx) < off"
        using "1.prems" in_range False by (auto split: if_splits)
      define len where "len = length (bufs head ! idx) - off"
      define btw where "btw = (if len < remaining then len else remaining)"
      define copied where "copied = take btw (drop off (bufs head ! idx))"
      have lc: "length copied = btw"
        by (auto simp: copied_def btw_def len_def)
      have tk: "take (length copied) (owed_head head idx off) = copied"
        using in_range lc by (simp add: owed_head_def copied_def btw_def len_def)
      have le: "btw \<le> remaining" by (simp add: btw_def)
      show ?thesis
      proof (cases "btw < len")
        case True
        have call: "OnStreamRead_inner head idx (off + btw) (out @ copied) (remaining - btw)
            (tr @ [EvMemcpy copied]) = Inr (at_end, idx', off', out', rem', tr')"
          using "1.prems" in_range False inb True
          by (simp add: Let_def len_def [symmetric] btw_def [symmetric] copied_def [symmetric])
        have dr: "drop (length copied) (owed_head head idx off) = owed_head head idx (off + btw)"
          using in_range lc True by (simp add: owed_head_def len_def add.commute)
        have ok: "idx < length (bufs head) \<longrightarrow> off + btw \<le> length (bufs head ! idx)"
          using True unfolding len_def by linarith
        from "1.IH"(1) [OF in_range False inb len_def btw_def copied_def True call] ok
        obtain new where n: "length out' + rem' = length (out @ copied) + (remaining - btw)"
          "tr' = (tr @ [EvMemcpy copied]) @ new" "\<forall>e\<in>set new. pull_event e"
          "replay ((c, r, owed_head head idx (off + btw)) # ps) new =
             Some ((c, r, owed_head head idx' off') # ps)"
          "\<not> at_end \<longrightarrow> owed_head head idx' off' = []"
          "at_end \<longrightarrow> idx' < length (bufs head)"
          "idx' < length (bufs head) \<longrightarrow> off' \<le> length (bufs head ! idx')"
          by blast
        with le lc tk dr show ?thesis
          by (auto intro!: exI [of _ "EvMemcpy copied # new"])
      next
        case nlt: False
        have call: "OnStreamRead_inner head (idx + 1) 0 (out @ copied) (remaining - btw)
            (tr @ [EvMemcpy copied]) = Inr (at_end, idx', off', out', rem', tr')"
          using "1.prems" in_range False inb nlt
          by (simp add: Let_def len_def [symmetric] btw_def [symmetric] copied_def [symmetric])
        have bl: "btw = len" using nlt by (auto simp: btw_def)
        have dr: "drop (length copied) (owed_head head idx off) = owed_head head (idx + 1) 0"
          using in_range lc bl
          by (auto simp: owed_head_def len_def Cons_nth_drop_Suc [symmetric])
        from "1.IH"(2) [OF in_range False inb len_def btw_def copied_def nlt call]
        obtain new where n: "length out' + rem' = length (out @ copied) + (remaining - btw)"
          "tr' = (tr @ [EvMemcpy copied]) @ new" "\<forall>e\<in>set new. pull_event e"
          "replay ((c, r, owed_head head (idx + 1) 0) # ps) new =
             Some ((c, r, owed_head head idx' off') # ps)"
          "\<not> at_end \<longrightarrow> owed_head head idx' off' = []"
          "at_end \<longrightarrow> idx' < length (bufs head)"
          "idx' < length (bufs head) \<longrightarrow> off' \<le> length (bufs head ! idx')"
          by auto
        with le lc tk dr show ?thesis
          by (auto intro!: exI [of _ "EvMemcpy copied # new"])
      qed
    qed
  qed
qed

lemma inner_returns:
  "(idx < length (bufs h) \<longrightarrow> off \<le> length (bufs h ! idx)) \<Longrightarrow>
     \<exists>res. OnStreamRead_inner h idx off out rem tr = Inr res"
proof (induction h idx off out rem tr rule: OnStreamRead_inner.induct)
  case (1 head idx off out remaining tr)
  show ?case
  proof (cases "idx < length (bufs head) \<and> remaining \<noteq> 0")
    case False
    then show ?thesis by auto
  next
    case True
    then have in_range: "idx < length (bufs head)" and pos: "remaining \<noteq> 0" by simp_all
    have inb: "\<not> length (bufs head ! idx) < off"
      using "1.prems" in_range by simp
    define len where "len = length (bufs head ! idx) - off"
    define btw where "btw = (if len < remaining then len else remaining)"
    define copied where "copied = take btw (drop off (bufs head ! idx))"
    show ?thesis
    proof (cases "btw < len")
      case True
      have "idx < length (bufs head) \<longrightarrow> off + btw \<le> length (bufs head ! idx)"
        using True unfolding len_def by linarith
      from "1.IH"(1) [OF in_range pos inb len_def btw_def copied_def True this]
      show ?thesis
        using in_range pos inb True
        by (simp add: Let_def len_def [symmetric] btw_def [symmetric] copied_def [symmetric])
    next
      case False
      have "idx + 1 < length (bufs head) \<longrightarrow> 0 \<le> length (bufs head ! (idx + 1))"
        by simp
      from "1.IH"(2) [OF in_range pos inb len_def btw_def copied_def False this]
      show ?thesis
        using in_range pos inb False
        by (simp add: Let_def len_def [symmetric] btw_def [symmetric] copied_def [symmetric])
    qed
  qed
qed

lemma loop_props:
  "OnStreamRead_loop q idx off out rem tr = Inr (q', idx', off', out', rem', tr') \<Longrightarrow>
     length out' + rem' = length out + rem \<and>
     (\<exists>new. tr' = tr @ new \<and> (\<forall>e\<in>set new. pull_event e) \<and>
        replay (pending q idx off @ ps) new = Some (pending q' idx' off' @ ps)) \<and>
     set q' \<subseteq> set q \<and>
     (cursor_in_buffer q idx off \<longrightarrow> cursor_in_buffer q' idx' off')"
proof (induction q arbitrary: idx off out rem tr)
  case Nil
  then show ?case by auto
next
  case (Cons h rest)
  from Cons.prems obtain at_end idx1 off1 out1 rem1 tr1 where
    i: "OnStreamRead_inner h idx off out rem tr = Inr (at_end, idx1, off1, out1, rem1, tr1)"
    by (cases "OnStreamRead_inner h idx off out rem tr") auto
  from inner_props [OF i, of "cb h" "req h" "map (\<lambda>x. (cb x, req x, concat (bufs x))) rest @ ps"]
  obtain new1 where p: "length out1 + rem1 = length out + rem" "tr1 = tr @ new1"
    "\<forall>e\<in>set new1. pull_event e"
    "replay (pending (h # rest) idx off @ ps) new1 =
       Some ((cb h, req h, owed_head h idx1 off1) # map (\<lambda>x. (cb x, req x, concat (bufs x))) rest @ ps)"
    "\<not> at_end \<longrightarrow> owed_head h idx1 off1 = []"
    "cursor_in_buffer (h # rest) idx off \<longrightarrow> cursor_in_buffer (h # rest) idx1 off1"
    by (auto simp: pending_def cursor_in_buffer_def)
  show ?case
  proof (cases at_end)
    case True
    with Cons.prems i have "q' = h # rest" "idx' = idx1" "off' = off1" "out' = out1"
      "rem' = rem1" "tr' = tr1"
      by simp_all
    with p show ?thesis by (auto simp: pending_def)
  next
    case False
    with Cons.prems i obtain f where f: "cb h = Some f"
      and l: "OnStreamRead_loop rest 0 0 out1 rem1 (tr1 @ [EvWriteCb f (req h) 0]) =
        Inr (q', idx', off', out', rem', tr')"
      by (auto split: option.splits)
    from Cons.IH [OF l] cursor_in_buffer_start [of rest]
    obtain new2 where q: "length out' + rem' = length out1 + rem1"
      "tr' = (tr1 @ [EvWriteCb f (req h) 0]) @ new2" "\<forall>e\<in>set new2. pull_event e"
      "replay (pending rest 0 0 @ ps) new2 = Some (pending q' idx' off' @ ps)"
      "set q' \<subseteq> set rest" "cursor_in_buffer q' idx' off'"
      by auto
    have "replay (pending (h # rest) idx off @ ps) (new1 @ EvWriteCb f (req h) 0 # new2) =
        Some (pending q' idx' off' @ ps)"
      using p(4,5) False f q(4) by (simp add: replay_append pending_start)
    with p q show ?thesis
      by (auto intro!: exI [of _ "new1 @ EvWriteCb f (req h) 0 # new2"])
  qed
qed

lemma loop_returns:
  "\<forall>x\<in>set q. cb x \<noteq> None \<Longrightarrow> cursor_in_buffer q idx off \<Longrightarrow>
     \<exists>res. OnStreamRead_loop q idx off out rem tr = Inr res"
proof (induction q arbitrary: idx off out rem tr)
  case Nil
  then show ?case by simp
next
  case (Cons h rest)
  from Cons.prems(2) have "idx < length (bufs h) \<longrightarrow> off \<le> length (bufs h ! idx)"
    by (simp add: cursor_in_buffer_def)
  from inner_returns [OF this] obtain at_end idx1 off1 out1 rem1 tr1 where
    i: "OnStreamRead_inner h idx off out rem tr = Inr (at_end, idx1, off1, out1, rem1, tr1)"
    by (metis prod_cases6)
  from Cons.prems(1) obtain f where f: "cb h = Some f" and r: "\<forall>x\<in>set rest. cb x \<noteq> None"
    by auto
  from Cons.IH [OF r cursor_in_buffer_start]
  show ?case using i f by auto
qed

lemma OnStreamRead_result:
  assumes "FindStream w i = Some p" and "heap w p = Some s"
    and "\<forall>x\<in>set (queue s). cb x \<noteq> None" and "cursor_ok s"
  shows "\<exists>q idx off out tr.
           OnStreamRead_loop (queue s) (queue_head_index s) (queue_head_offset s) [] n [] =
             Inr (q, idx, off, out, n - length out, tr) \<and> length out \<le> n \<and>
           (\<forall>e\<in>set tr. pull_event e) \<and> set q \<subseteq> set (queue s) \<and>
           cursor_in_buffer q idx off \<and>
           (\<forall>ps. replay (pending (queue s) (queue_head_index s) (queue_head_offset s) @ ps) tr =
              Some (pending q idx off @ ps)) \<and>
           OnStreamRead i n fl trailers w =
             Inr (if out = [] \<and> q = [] \<and> IsWritable s then NGHTTP2_ERR_DEFERRED
                  else int (length out),
                  out,
                  if q = [] \<and> \<not> IsWritable s
                  then insert NGHTTP2_DATA_FLAG_EOF fl \<union>
                       (if trailers \<noteq> [] then {NGHTTP2_DATA_FLAG_NO_END_STREAM} else {})
                  else fl,
                  emit (tr @ (if q = [] \<and> \<not> IsWritable s
                              then EvOnTrailers (sid s) #
                                   (if trailers \<noteq> [] then [EvSubmitTrailer (sid s) trailers] else [])
                              else []))
                    (w\<lparr>heap := (heap w)(p \<mapsto> s\<lparr>queue := q, queue_head_index := idx,
                                                    queue_head_offset := off\<rparr>)\<rparr>))"
proof -
  have c: "cursor_in_buffer (queue s) (queue_head_index s) (queue_head_offset s)"
    using assms(4) by (simp add: cursor_ok_def)
  obtain q idx off out rem tr where
    l: "OnStreamRead_loop (queue s) (queue_head_index s) (queue_head_offset s) [] n [] =
          Inr (q, idx, off, out, rem, tr)"
    using loop_returns [OF assms(3) c, of "[]" n "[]"]
    by (metis prod_cases6)
  have len: "length out + rem = n" and ev: "\<forall>e\<in>set tr. pull_event e"
    and sub: "set q \<subseteq> set (queue s)"
    and wf: "cursor_in_buffer q idx off"
    using loop_props [OF l, of "[]"] c by auto
  have rp: "\<forall>ps. replay (pending (queue s) (queue_head_index s) (queue_head_offset s) @ ps) tr =
              Some (pending q idx off @ ps)"
  proof
    fix ps
    show "replay (pending (queue s) (queue_head_index s) (queue_head_offset s) @ ps) tr =
              Some (pending q idx off @ ps)"
      using loop_props [OF l, of ps] by auto
  qed
  from len have rem: "rem = n - length out" and le: "length out \<le> n" by auto
  have "OnStreamRead i n fl trailers w =
             Inr (if out = [] \<and> q = [] \<and> IsWritable s then NGHTTP2_ERR_DEFERRED
                  else int (length out),
                  out,
                  if q = [] \<and> \<not> IsWritable s
                  then insert NGHTTP2_DATA_FLAG_EOF fl \<union>
                       (if trailers \<noteq> [] then {NGHTTP2_DATA_FLAG_NO_END_STREAM} else {})
                  else fl,
                  emit (tr @ (if q = [] \<and> \<not> IsWritable s
                              then EvOnTrailers (sid s) #
                                   (if trailers \<noteq> [] then [EvSubmitTrailer (sid s) trailers] else [])
                              else []))
                    (w\<lparr>heap := (heap w)(p \<mapsto> s\<lparr>queue := q, queue_head_index := idx,
                                                    queue_head_offset := off\<rparr>)\<rparr>))"
    using assms(1,2) l le
    by (auto simp: OnStreamRead_def Let_def IsWritable_def emit_def)
  with l rem le ev sub wf rp show ?thesis by blast
qed

section \<open>The end of a pull\<close>




section \<open>Write completions in submission order\<close>

lemma Write_step:
  "heap w p = Some s \<Longrightarrow> IsWritable s \<Longrightarrow> session s \<Longrightarrow>
     Nghttp2Stream_Write p r bs (Some f) w =
       Inr (0, emit [EvResumeData (sid s)]
                 (w\<lparr>heap := (heap w)(p \<mapsto> s\<lparr>queue := queue s @ [\<lparr>cb = Some f, req = r, bufs = bs\<rparr>]\<rparr>)\<rparr>))"
  by (simp add: Nghttp2Stream_Write_def)

lemma pending_snoc:
  "cursor_in_buffer q idx off \<Longrightarrow>
     pending (q @ [x]) idx off = pending q idx off @ [(cb x, req x, concat (bufs x))]"
  by (cases q) (simp_all add: pending_def owed_head_start cursor_in_buffer_def)

lemma cursor_in_buffer_snoc:
  "cursor_in_buffer q idx off \<Longrightarrow> cursor_in_buffer (q @ [x]) idx off"
  by (cases q) (simp_all add: cursor_in_buffer_def)

lemma replay_write_cbs:
  "replay ps tr = Some ps' \<Longrightarrow>
     map (\<lambda>(c, r, b). (c, r)) ps = write_cbs tr @ map (\<lambda>(c, r, b). (c, r)) ps'"
  by (induction ps tr rule: replay.induct) (auto split: list.splits if_splits)

lemma pending_cbs: "map (\<lambda>(c, r, b). (c, r)) (pending q idx off) = map (\<lambda>x. (cb x, req x)) q"
  by (cases q) (simp_all add: pending_def)

lemma run_ops_replay:
  assumes "FindStream w i = Some p" and "heap w p = Some s" and "IsWritable s" and "session s"
    and "\<forall>x\<in>set (queue s). cb x \<noteq> None" and "cursor_ok s"
  shows "\<exists>w' s' new. run_ops p i ops w = Inr w' \<and> heap w' p = Some s' \<and>
           trace w' = trace w @ new \<and>
           replay (pending (queue s) (queue_head_index s) (queue_head_offset s) @ submitted ops) new =
             Some (pending (queue s') (queue_head_index s') (queue_head_offset s'))"
  using assms
proof (induction ops arbitrary: w s)
  case Nil
  then show ?case by simp
next
  case (Cons op ops)
  have cur: "cursor_in_buffer (queue s) (queue_head_index s) (queue_head_offset s)"
    using Cons.prems(6) by (simp add: cursor_ok_def)
  show ?case
  proof (cases op)
    case (OpWrite r bs f)
    let ?x = "\<lparr>cb = Some f, req = r, bufs = bs\<rparr>"
    let ?s1 = "s\<lparr>queue := queue s @ [?x]\<rparr>"
    let ?w1 = "emit [EvResumeData (sid s)] (w\<lparr>heap := (heap w)(p \<mapsto> ?s1)\<rparr>)"
    have st: "Nghttp2Stream_Write p r bs (Some f) w = Inr (0, ?w1)"
      using Write_step Cons.prems by simp
    have inv: "FindStream ?w1 i = Some p" "heap ?w1 p = Some ?s1" "IsWritable ?s1" "session ?s1"
      "\<forall>x\<in>set (queue ?s1). cb x \<noteq> None" "cursor_ok ?s1"
      using Cons.prems cursor_in_buffer_snoc [OF cur, of ?x]
      by (simp_all add: FindStream_def emit_def IsWritable_def cursor_ok_def)
    from Cons.IH [OF inv] obtain w' s' new where
      n: "run_ops p i ops ?w1 = Inr w'" "heap w' p = Some s'" "trace w' = trace ?w1 @ new"
      "replay (pending (queue ?s1) (queue_head_index ?s1) (queue_head_offset ?s1) @ submitted ops) new =
         Some (pending (queue s') (queue_head_index s') (queue_head_offset s'))"
      by blast
    have pe: "pending (queue ?s1) (queue_head_index ?s1) (queue_head_offset ?s1) =
        pending (queue s) (queue_head_index s) (queue_head_offset s) @ [(Some f, r, concat bs)]"
      using pending_snoc [OF cur, of ?x] by simp
    show ?thesis
      apply (rule exI [of _ w'])
      apply (rule exI [of _ s'])
      apply (rule exI [of _ "EvResumeData (sid s) # new"])
      using n pe st OpWrite by (simp add: emit_def)
  next
    case (OpPull n fl trailers)
    from OnStreamRead_result [OF Cons.prems(1,2,5,6), of n fl trailers]
    obtain q idx off out tr where
      r: "set q \<subseteq> set (queue s)"
      "cursor_in_buffer q idx off"
      "\<forall>ps. replay (pending (queue s) (queue_head_index s) (queue_head_offset s) @ ps) tr =
              Some (pending q idx off @ ps)"
      "OnStreamRead i n fl trailers w =
             Inr (if out = [] \<and> q = [] \<and> IsWritable s then NGHTTP2_ERR_DEFERRED
                  else int (length out),
                  out,
                  if q = [] \<and> \<not> IsWritable s
                  then insert NGHTTP2_DATA_FLAG_EOF fl \<union>
                       (if trailers \<noteq> [] then {NGHTTP2_DATA_FLAG_NO_END_STREAM} else {})
                  else fl,
                  emit (tr @ (if q = [] \<and> \<not> IsWritable s
                              then EvOnTrailers (sid s) #
                                   (if trailers \<noteq> [] then [EvSubmitTrailer (sid s) trailers] else [])
                              else []))
                    (w\<lparr>heap := (heap w)(p \<mapsto> s\<lparr>queue := q, queue_head_index := idx,
                                                    queue_head_offset := off\<rparr>)\<rparr>))"
      by blast
    let ?s1 = "s\<lparr>queue := q, queue_head_index := idx, queue_head_offset := off\<rparr>"
    let ?w1 = "emit tr (w\<lparr>heap := (heap w)(p \<mapsto> ?s1)\<rparr>)"
    have st: "\<exists>ret fl'. OnStreamRead i n fl trailers w = Inr (ret, out, fl', ?w1)"
      using r(4) Cons.prems(3) by simp
    have inv: "FindStream ?w1 i = Some p" "heap ?w1 p = Some ?s1" "IsWritable ?s1" "session ?s1"
      "\<forall>x\<in>set (queue ?s1). cb x \<noteq> None" "cursor_ok ?s1"
      using Cons.prems r(1,2) by (auto simp: FindStream_def emit_def IsWritable_def cursor_ok_def)
    from Cons.IH [OF inv] obtain w' s' new where
      n: "run_ops p i ops ?w1 = Inr w'" "heap w' p = Some s'" "trace w' = trace ?w1 @ new"
      "replay (pending (queue ?s1) (queue_head_index ?s1) (queue_head_offset ?s1) @ submitted ops) new =
         Some (pending (queue s') (queue_head_index s') (queue_head_offset s'))"
      by blast
    show ?thesis
      apply (rule exI [of _ w'])
      apply (rule exI [of _ s'])
      apply (rule exI [of _ "tr @ new"])
      using n st r(3) OpPull by (auto simp: emit_def replay_append)
  qed
qed

text \<open>
  C3. On a writable stream of a session, with the cursor in order and a callback on
  every request already queued, any run of write requests with callbacks and of pulls by
  the engine returns, and its trace obeys the rules of \<open>replay\<close> from the requests
  queued at the start followed by the requests submitted in the run, in submission
  order: every completion callback is the one of the
  oldest request not yet completed and is called with status 0 when every byte of every
  buffer of that request has been copied out, and every copy takes the next bytes of the
  oldest request not yet completed. So the callbacks called are a prefix of the requests
  in submission order, and the rest of them is what the write queue still holds.
\<close>

theorem write_completions_in_order:
  assumes "FindStream w i = Some p" and "heap w p = Some s" and "IsWritable s" and "session s"
    and "\<forall>x\<in>set (queue s). cb x \<noteq> None" and "cursor_ok s"
  shows "\<exists>w' s' new. run_ops p i ops w = Inr w' \<and> heap w' p = Some s' \<and>
           trace w' = trace w @ new \<and>
           replay (pending (queue s) (queue_head_index s) (queue_head_offset s) @ submitted ops) new =
             Some (pending (queue s') (queue_head_index s') (queue_head_offset s')) \<and>
           map (\<lambda>x. (cb x, req x)) (queue s) @ map (\<lambda>(c, r, b). (c, r)) (submitted ops) =
             write_cbs new @ map (\<lambda>x. (cb x, req x)) (queue s')"
proof -
  from run_ops_replay [OF assms, of ops] obtain w' s' new where
    r: "run_ops p i ops w = Inr w'" "heap w' p = Some s'" "trace w' = trace w @ new"
    "replay (pending (queue s) (queue_head_index s) (queue_head_offset s) @ submitted ops) new =
       Some (pending (queue s') (queue_head_index s') (queue_head_offset s'))"
    by blast
  from replay_write_cbs [OF r(4)]
  have "map (\<lambda>x. (cb x, req x)) (queue s) @ map (\<lambda>(c, r, b). (c, r)) (submitted ops) =
      write_cbs new @ map (\<lambda>x. (cb x, req x)) (queue s')"
    by (simp add: pending_cbs)
  with r show ?thesis by blast
qed

theorem write_completions_in_order_witness:
  "FindStream world1 1 = Some 0 \<and> heap world1 0 = Some stream1 \<and> IsWritable stream1 \<and>
   session stream1 \<and> queue stream1 = [] \<and> cursor_ok stream1 \<and>
   (\<exists>w' s' new.
      run_ops 0 1 [OpWrite 1 [[1, 2], [3]] 11, OpWrite 2 [[4, 5, 6]] 12, OpPull 2 {} [],
                   OpWrite 3 [[7]] 13, OpPull 3 {} [], OpPull 10 {} []] world1 = Inr w' \<and>
      heap w' 0 = Some s' \<and> trace w' = trace world1 @ new \<and>
      replay [(Some 11, 1, [1, 2, 3]), (Some 12, 2, [4, 5, 6]), (Some 13, 3, [7])] new =
        Some (pending (queue s') (queue_head_index s') (queue_head_offset s')) \<and>
      [(Some 11, 1), (Some 12, 2), (Some 13, 3)] =
        write_cbs new @ map (\<lambda>x. (cb x, req x)) (queue s')) \<and>
   trace_of (run_ops 0 1 [OpWrite 1 [[1, 2], [3]] 11, OpWrite 2 [[4, 5, 6]] 12, OpPull 2 {} [],
                          OpWrite 3 [[7]] 13, OpPull 3 {} [], OpPull 10 {} []] world1) =
     [EvResumeData 1, EvResumeData 1, EvMemcpy [1, 2], EvResumeData 1, EvMemcpy [3],
      EvWriteCb 11 1 0, EvMemcpy [4, 5], EvMemcpy [6], EvWriteCb 12 2 0, EvMemcpy [7],
      EvWriteCb 13 3 0]"
proof -
  let ?ops = "[OpWrite 1 [[1, 2], [3]] 11, OpWrite 2 [[4, 5, 6]] 12, OpPull 2 {} [],
               OpWrite 3 [[7]] 13, OpPull 3 {} [], OpPull 10 {} []]"
  have h: "FindStream world1 1 = Some 0" "heap world1 0 = Some stream1" "IsWritable stream1"
    "session stream1" "\<forall>x\<in>set (queue stream1). cb x \<noteq> None" "cursor_ok stream1"
    using world1_stream
    by (simp_all add: stream1_def ResetState_def IsWritable_def cursor_ok_def
        cursor_in_buffer_def)
  have q: "queue stream1 = []" "queue_head_index stream1 = 0" "queue_head_offset stream1 = 0"
    by (simp_all add: stream1_def ResetState_def)
  have e: "trace_of (run_ops 0 1 ?ops world1) =
     [EvResumeData 1, EvResumeData 1, EvMemcpy [1, 2], EvResumeData 1, EvMemcpy [3],
      EvWriteCb 11 1 0, EvMemcpy [4, 5], EvMemcpy [6], EvWriteCb 12 2 0, EvMemcpy [7],
      EvWriteCb 13 3 0]"
    by (simp add: Nghttp2Stream_Write_def OnStreamRead_def FindStream_def world1_def world0_def
        stream1_def ResetState_def Let_def IsWritable_def emit_def trace_of_def)
  from write_completions_in_order [OF h, of ?ops] h(1-4,6) q e
  show ?thesis by (simp add: pending_def)
qed

section \<open>The send pipeline across buffer boundaries\<close>

lemma SendPendingData_200000:
  assumes "length data = 200000"
  shows "map_option trace (SendPendingData (world0\<lparr>engine_out := [data], send_len := 65536\<rparr>)) =
     Some [EvSend (take 65536 data), EvSend (take 65536 (drop 65536 data)),
           EvSend (take 65536 (drop 65536 data)), EvSend (take 3392 (drop 65536 data))]"
  using assms
  by (simp add: world0_def SendPendingData_def AllocateSend_def memcpy_def emit_def
        SendPendingData_inner.simps min_def)

text \<open>
  C2 fails on the code. The engine gives one chunk of 200000 bytes, 131072 zeros followed
  by 68928 ones, and the transport's buffers hold 65536 bytes. The pipeline flushes four
  buffers of 65536, 65536, 65536 and 3392 bytes, all zeros: after the second split the
  source offset is set to the space that was left in the buffer instead of being
  advanced by it, so the bytes from 65536 on are sent again and the last 68928 bytes of
  the chunk are never sent.
\<close>

theorem SendPendingData_long_chunk:
  "map_option trace (SendPendingData
      (world0\<lparr>engine_out := [replicate 131072 0 @ replicate 68928 1], send_len := 65536\<rparr>)) =
     Some [EvSend (replicate 65536 0), EvSend (replicate 65536 0),
           EvSend (replicate 65536 0), EvSend (replicate 3392 0)]"
  using SendPendingData_200000 [of "replicate 131072 0 @ replicate 68928 1"]
  by (simp add: min_def)

lemma SendPendingData_seven_bytes:
  "map_option trace (SendPendingData (world0\<lparr>engine_out := [[1, 2, 3, 4, 5, 6, 7]]\<rparr>)) =
     Some [EvSend [1, 2], EvSend [3, 4], EvSend [3, 4], EvSend [3]]"
  by (simp add: world0_def SendPendingData_def AllocateSend_def memcpy_def emit_def
      SendPendingData_inner.simps)

end
